theory Spec2Isabelle
  imports Complex_Main "HOL-Library.Char_ord" "HOL-Library.List_Lexorder"
    "HOL-Library.Product_Lexorder"
begin

section \<open>Data model of \<open>jinfund/portfolio/holdings.py\<close>\<close>

text \<open>
  A date is a day number. A pandas float cell is an exact rational or NaN: \<open>None\<close> is
  NaN, and arithmetic on cells is exact (the rounding of float64 is not modelled). A
  Series indexed by date is the list of its rows \<open>(date, cell)\<close> in index order; an
  index may hold a date more than once, as a pandas index may.
\<close>

type_synonym date = int
type_synonym ticker = string
type_synonym cell = "rat option"
type_synonym series = "(date \<times> cell) list"

datatype error = TypeError | IndexError | ValueError | KeyError | ConnectionError

text \<open>One row of \<open>Trades.all\<close>: the index \<open>(Date, Ticker)\<close> and the two columns the
  module reads.\<close>

record trade =
  trade_date :: date
  trade_ticker :: ticker
  trade_volume :: rat
  effective_price :: rat

text \<open>The outcome of \<open>yf.Ticker(...).actions\<close>: the \<open>Stock Splits\<close> column of the table
  of corporate actions of the instrument's whole history, one row per action date (0 on
  a date that has a dividend only), or the exception the lookup raises.\<close>

datatype actions_lookup = Actions "(date \<times> rat) list" | Raises error

text \<open>One row of the frame \<open>build\<close> returns: the index \<open>(Date, Ticker)\<close> and the columns
  \<open>Volume\<close>, \<open>Close\<close>, \<open>Value\<close>.\<close>

record holding =
  Date :: date
  Ticker :: ticker
  Volume :: cell
  Close :: cell
  Value :: cell

section \<open>The pandas operations the module calls\<close>

text \<open>\<open>Series.cumsum()\<close> and \<open>Series.cumprod()\<close> skip NaN: a NaN cell stays NaN and the
  running total goes on after it.\<close>

fun cumsum_from :: "rat \<Rightarrow> cell list \<Rightarrow> cell list" where
  "cumsum_from acc [] = []"
| "cumsum_from acc (None # xs) = None # cumsum_from acc xs"
| "cumsum_from acc (Some x # xs) = Some (acc + x) # cumsum_from (acc + x) xs"

definition cumsum :: "cell list \<Rightarrow> cell list" where
  "cumsum xs = cumsum_from 0 xs"

fun cumprod_from :: "rat \<Rightarrow> cell list \<Rightarrow> cell list" where
  "cumprod_from acc [] = []"
| "cumprod_from acc (None # xs) = None # cumprod_from acc xs"
| "cumprod_from acc (Some x # xs) = Some (acc * x) # cumprod_from (acc * x) xs"

definition cumprod :: "cell list \<Rightarrow> cell list" where
  "cumprod xs = cumprod_from 1 xs"

text \<open>\<open>ffill()\<close>: a NaN cell takes the last cell that was not NaN, if there is one.\<close>

fun ffill_from :: "cell \<Rightarrow> cell list \<Rightarrow> cell list" where
  "ffill_from prev [] = []"
| "ffill_from prev (None # xs) = prev # ffill_from prev xs"
| "ffill_from prev (Some x # xs) = Some x # ffill_from (Some x) xs"

definition ffill :: "cell list \<Rightarrow> cell list" where
  "ffill xs = ffill_from None xs"

definition fillna :: "rat \<Rightarrow> cell list \<Rightarrow> cell list" where
  "fillna v xs = map (\<lambda>x. case x of None \<Rightarrow> Some v | Some y \<Rightarrow> Some y) xs"

text \<open>\<open>replace(0, np.nan)\<close> on one cell.\<close>

definition replace_zero :: "cell \<Rightarrow> cell" where
  "replace_zero x = (case x of None \<Rightarrow> None | Some y \<Rightarrow> if y = 0 then None else Some y)"

text \<open>The product of two cells and \<open>np.ceil\<close> of a cell: NaN in, NaN out.\<close>

definition mul_cell :: "cell \<Rightarrow> cell \<Rightarrow> cell" where
  "mul_cell x y = (case x of None \<Rightarrow> None
     | Some a \<Rightarrow> (case y of None \<Rightarrow> None | Some b \<Rightarrow> Some (a * b)))"

definition ceil_cell :: "cell \<Rightarrow> cell" where
  "ceil_cell x = (case x of None \<Rightarrow> None | Some a \<Rightarrow> Some (of_int \<lceil>a\<rceil>))"

text \<open>
  \<open>pd.merge_ordered(left, right, on='Date')\<close> with its default \<open>how='outer'\<close> and no
  \<open>fill_method\<close>: the keys of both sides in increasing order, each once; under a key, the
  rows of the left side with that key paired with the rows of the right side with that
  key, left row by left row; where one side has no row for the key, its cell is missing.
  The value of a side is \<open>None\<close> where that side has no row.
\<close>

definition rows_at :: "date \<Rightarrow> (date \<times> 'a) list \<Rightarrow> 'a list" where
  "rows_at k xs = map snd (filter (\<lambda>r. fst r = k) xs)"

definition merge_key :: "(date \<times> 'a) list \<Rightarrow> (date \<times> 'b) list \<Rightarrow> date
    \<Rightarrow> (date \<times> 'a option \<times> 'b option) list" where
  "merge_key l r k =
     (case rows_at k r of
        [] \<Rightarrow> map (\<lambda>a. (k, Some a, None)) (rows_at k l)
      | b # bs \<Rightarrow>
          (case rows_at k l of
             [] \<Rightarrow> map (\<lambda>b'. (k, None, Some b')) (b # bs)
           | a # as \<Rightarrow> concat (map (\<lambda>a'. map (\<lambda>b'. (k, Some a', Some b')) (b # bs)) (a # as))))"

definition merge_ordered :: "(date \<times> 'a) list \<Rightarrow> (date \<times> 'b) list
    \<Rightarrow> (date \<times> 'a option \<times> 'b option) list" where
  "merge_ordered l r =
     concat (map (merge_key l r) (sort (remdups (map fst l @ map fst r))))"

text \<open>\<open>first_valid_index()\<close>: the label of the first cell that is not NaN, \<open>None\<close> when
  every cell is NaN.\<close>

definition first_valid_index :: "series \<Rightarrow> date option" where
  "first_valid_index s =
     (case filter (\<lambda>r. snd r \<noteq> None) s of [] \<Rightarrow> None | r # _ \<Rightarrow> Some (fst r))"

text \<open>Where the slice \<open>df.loc[label:]\<close> starts: at the first row that carries the label
  (the index is in date order, \<open>build\<close> made it so); \<open>df.loc[None:]\<close> is the whole
  frame.\<close>

definition loc_start :: "date option \<Rightarrow> date list \<Rightarrow> nat" where
  "loc_start label idx =
     (case label of None \<Rightarrow> 0 | Some d \<Rightarrow> length (takeWhile (\<lambda>x. x \<noteq> d) idx))"

section \<open>\<open>Portfolio.stocksplits\<close>\<close>

text \<open>
  The function prints to the terminal, so it returns the lines it printed beside its
  result. An exception of the lookup other than \<open>TypeError\<close> is not caught and leaves
  the function. The frame \<open>df\<close> has the dates as its index, in date order (\<open>build\<close>
  made it so), and the one column \<open>Volume\<close>.

  With a split in the table: the \<open>Stock Splits\<close> column is the table's column with 0
  replaced by NaN, read at the dates of \<open>df\<close>, NaN at a date the table does not have;
  zero volumes become NaN; the cumulative product runs over the slice from the first
  valid date on. \<open>df['Volume'] *= ...\<close> aligns the product with the frame on the index:
  a row before the slice gets NaN; when the slice is shorter than the frame and a date
  occurs twice in it, the alignment pairs every copy with every copy and writing the
  longer result back raises \<open>ValueError\<close>.
\<close>

definition has_split :: "(date \<times> rat) list \<Rightarrow> bool" where
  "has_split acts = (filter (\<lambda>a. snd a > 0) acts \<noteq> [])"

definition split_column :: "(date \<times> rat) list \<Rightarrow> date list \<Rightarrow> cell list" where
  "split_column acts idx = map (\<lambda>d. replace_zero (map_of acts d)) idx"

definition stocksplit_cumulative :: "nat \<Rightarrow> cell list \<Rightarrow> cell list" where
  "stocksplit_cumulative start splits = fillna 1 (ffill (cumprod (drop start splits)))"

definition stocksplits :: "series \<Rightarrow> ticker \<Rightarrow> actions_lookup \<Rightarrow> string list \<times> (error + series)" where
  "stocksplits df ticker lookup =
     (let out = [CHR 0x0D # ''Checking '' @ ticker] in
      case lookup of
        Raises e \<Rightarrow>
          if e = TypeError then (out @ [CHR 0x0D # ''Something went wrong!''], Inr df)
          else (out, Inl e)
      | Actions df_actions \<Rightarrow>
          if has_split df_actions then
            let idx = map fst df;
                splits = split_column df_actions idx;
                volume = map (\<lambda>r. replace_zero (snd r)) df;
                start = loc_start (first_valid_index (zip idx volume)) idx;
                cumulative = stocksplit_cumulative start splits
            in if start \<noteq> 0 \<and> \<not> distinct (drop start idx) then (out, Inl ValueError)
               else (out, Inr (zip idx
                      (map ceil_cell (map2 mul_cell volume (replicate start None @ cumulative)))))
          else (out, Inr df))"

section \<open>\<open>Portfolio.build\<close>\<close>

text \<open>Modelled from the spec: \<open>Trades.by_ticker\<close> (\<open>portfolio/transactions.py\<close> is not
  among the sources). The spec's \<open>events_for(instrument_id)\<close>: the events of the
  instrument, in date order; several events may share a date.\<close>

definition by_ticker :: "trade list \<Rightarrow> ticker \<Rightarrow> trade list" where
  "by_ticker trades ticker =
     sort_key trade_date (filter (\<lambda>t. trade_ticker t = ticker) trades)"

text \<open>Modelled from the spec: \<open>datehandler.date_list\<close> (\<open>datehandler.py\<close> is not among the
  sources). The spec's dense date sequence: every calendar day from the first date to
  the last, both included, in increasing order.\<close>

definition date_list :: "date \<Rightarrow> date \<Rightarrow> date list" where
  "date_list start_date end_date = [start_date..end_date]"

text \<open>Lines 65 and 66: the volumes merged with the frame of all dates (which has no
  column), then \<open>cumsum().ffill()\<close> on the \<open>Volume\<close> column.\<close>

definition cumulative_volume :: "(date \<times> rat) list \<Rightarrow> date list \<Rightarrow> series" where
  "cumulative_volume vol_df p_dates =
     (let merged = merge_ordered vol_df (map (\<lambda>d. (d, ())) p_dates)
      in zip (map fst merged) (ffill (cumsum (map (\<lambda>r. fst (snd r)) merged))))"

text \<open>Line 67: the rows whose volume is not NaN.\<close>

definition notna_rows :: "series \<Rightarrow> series" where
  "notna_rows df = filter (\<lambda>r. snd r \<noteq> None) df"

text \<open>Line 73: the merge with the instrument's column of closing prices. A cell of the
  result is NaN where its side has no row for the date, or has NaN there.\<close>

definition flat_cell :: "cell option \<Rightarrow> cell" where
  "flat_cell x = (case x of None \<Rightarrow> None | Some c \<Rightarrow> c)"

definition merge_close :: "series \<Rightarrow> series \<Rightarrow> (date \<times> cell \<times> cell) list" where
  "merge_close ticker_df close_col =
     map (\<lambda>r. (fst r, flat_cell (fst (snd r)), flat_cell (snd (snd r))))
       (merge_ordered ticker_df close_col)"

text \<open>The body of the loop, lines 62 to 77, for one ticker: the lines printed, and the
  rows \<open>(Date, Ticker, Volume, Close)\<close> or the exception that leaves the loop.\<close>

definition ticker_rows :: "trade list \<Rightarrow> date list \<Rightarrow> (ticker \<Rightarrow> series)
    \<Rightarrow> (ticker \<Rightarrow> actions_lookup) \<Rightarrow> ticker
    \<Rightarrow> string list \<times> (error + (date \<times> ticker \<times> cell \<times> cell) list)" where
  "ticker_rows trades p_dates close actions ticker =
     (let vol_df = map (\<lambda>t. (trade_date t, trade_volume t)) (by_ticker trades ticker);
          ticker_df = notna_rows (cumulative_volume vol_df p_dates)
      in case stocksplits ticker_df ticker (actions ticker) of
           (out, Inl e) \<Rightarrow> (out, Inl e)
         | (out, Inr adjusted) \<Rightarrow>
             (out, Inr (map (\<lambda>r. (fst r, ticker, fst (snd r), snd (snd r)))
                          (merge_close adjusted (close ticker)))))"

fun build_loop :: "trade list \<Rightarrow> date list \<Rightarrow> (ticker \<Rightarrow> series)
    \<Rightarrow> (ticker \<Rightarrow> actions_lookup) \<Rightarrow> ticker list
    \<Rightarrow> (date \<times> ticker \<times> cell \<times> cell) list
    \<Rightarrow> string list \<times> (error + (date \<times> ticker \<times> cell \<times> cell) list)" where
  "build_loop trades p_dates close actions [] df_pfolio = ([], Inr df_pfolio)"
| "build_loop trades p_dates close actions (ticker # tickers) df_pfolio =
     (case ticker_rows trades p_dates close actions ticker of
        (out, Inl e) \<Rightarrow> (out, Inl e)
      | (out, Inr ticker_df) \<Rightarrow>
          (case build_loop trades p_dates close actions tickers (df_pfolio @ ticker_df) of
             (out', res) \<Rightarrow> (out @ out', res)))"

text \<open>Line 81: \<open>Value = Volume * Close\<close>.\<close>

definition assign_value :: "date \<times> ticker \<times> cell \<times> cell \<Rightarrow> holding" where
  "assign_value r =
     \<lparr>Date = fst r, Ticker = fst (snd r), Volume = fst (snd (snd r)),
      Close = snd (snd (snd r)),
      Value = mul_cell (fst (snd (snd r))) (snd (snd (snd r)))\<rparr>"

text \<open>
  \<open>build\<close>, with the date of today, the downloaded \<open>Adj Close\<close> table (one column per
  ticker, NaN where the provider has no price of the ticker on a date of the table) and
  the lookup of corporate actions as arguments. \<open>self.trades.index[0]\<close> and
  \<open>p_dates[0]\<close> raise \<open>IndexError\<close> on an empty ledger and on an empty list of dates.
  The final frame is sorted by \<open>(Date, Ticker)\<close>, rows with equal keys staying in their
  order.
\<close>

definition build :: "trade list \<Rightarrow> date \<Rightarrow> (ticker \<Rightarrow> series) \<Rightarrow> (ticker \<Rightarrow> actions_lookup)
    \<Rightarrow> string list \<times> (error + holding list)" where
  "build trades today close actions =
     (case trades of
        [] \<Rightarrow> ([], Inl IndexError)
      | t0 # _ \<Rightarrow>
          (let p_inception = trade_date t0;
               p_dates = date_list p_inception today;
               tickers = sort (remdups (map trade_ticker trades))
           in if p_dates = [] then ([], Inl IndexError)
              else (case build_loop trades p_dates close actions tickers [] of
                      (out, Inl e) \<Rightarrow> (out, Inl e)
                    | (out, Inr df_pfolio) \<Rightarrow>
                        (out @ [CHR 0x0A # ''Portfolio successfully built''],
                         Inr (map assign_value
                                (sort_key (\<lambda>r. (fst r, fst (snd r))) df_pfolio))))))"

section \<open>Notions the statements use\<close>

text \<open>The sum of the volumes of the trade rows dated before a date, and up to and
  including a date.\<close>

definition volume_before :: "date \<Rightarrow> (date \<times> rat) list \<Rightarrow> rat" where
  "volume_before d vol_df = sum_list (map snd (filter (\<lambda>r. fst r < d) vol_df))"

definition volume_upto :: "date \<Rightarrow> (date \<times> rat) list \<Rightarrow> rat" where
  "volume_upto d vol_df = sum_list (map snd (filter (\<lambda>r. fst r \<le> d) vol_df))"

text \<open>The sum of the cells of a column that are not NaN, and the cell \<open>cumsum().ffill()\<close>
  reaches at the end of a stretch \<open>xs\<close> entered with running sum \<open>acc\<close> and last filled
  cell \<open>prev\<close>.\<close>

definition sumdef :: "cell list \<Rightarrow> rat" where
  "sumdef xs = sum_list (map (\<lambda>x. case x of None \<Rightarrow> 0 | Some v \<Rightarrow> v) xs)"

definition run_from :: "rat \<Rightarrow> cell \<Rightarrow> cell list \<Rightarrow> cell" where
  "run_from acc prev xs =
     (if filter (\<lambda>x. x \<noteq> None) xs = [] then prev else Some (acc + sumdef xs))"

text \<open>The frame of \<open>stocksplits\<close> after line 111 (zero volumes are NaN), and the row at
  which the slice of line 113 starts.\<close>

definition masked :: "series \<Rightarrow> series" where
  "masked df = map (\<lambda>r. (fst r, replace_zero (snd r))) df"

definition slice_start :: "series \<Rightarrow> nat" where
  "slice_start df = loc_start (first_valid_index (masked df)) (map fst df)"

text \<open>The factor of a cell of the \<open>Stock Splits\<close> column once \<open>fillna(1)\<close> has run.\<close>

definition factor_of :: "cell \<Rightarrow> rat" where
  "factor_of x = (case x of None \<Rightarrow> 1 | Some f \<Rightarrow> f)"

subsection \<open>The split adjuster in the words of the specification\<close>

text \<open>
  The split factor of a date is the factor the table announces for it, and 1 on a date
  with no announced split (no row, or a row with 0). The quantity is first defined at
  the first row whose masked quantity is not NaN. The cumulative factor of row \<open>i\<close> is
  the product of the factors of the dates of the rows from that first row to row \<open>i\<close>.
  The adjusted quantity of a row is its masked quantity times the cumulative factor,
  rounded up; it is undefined where the masked quantity is.
\<close>

definition split_factor :: "(date \<times> rat) list \<Rightarrow> date \<Rightarrow> rat" where
  "split_factor acts d =
     (case map_of acts d of None \<Rightarrow> 1 | Some f \<Rightarrow> if f = 0 then 1 else f)"

definition spec_first_defined :: "series \<Rightarrow> nat" where
  "spec_first_defined q = length (takeWhile (\<lambda>r. snd r = None) q)"

definition spec_cumulative_factor :: "(date \<times> rat) list \<Rightarrow> date list \<Rightarrow> nat \<Rightarrow> nat \<Rightarrow> rat" where
  "spec_cumulative_factor acts dates first i =
     prod_list (map (split_factor acts) (take (Suc i - first) (drop first dates)))"

definition spec_adjust :: "(date \<times> rat) list \<Rightarrow> series \<Rightarrow> series" where
  "spec_adjust acts q =
     (let m = masked q; first = spec_first_defined m
      in map (\<lambda>i. (fst (q ! i),
                  case snd (m ! i) of
                    None \<Rightarrow> None
                  | Some v \<Rightarrow> Some (of_int \<lceil>v * spec_cumulative_factor acts (map fst q) first i\<rceil>)))
           [0..<length q])"


section \<open>The running sum of the volumes\<close>

lemma sumdef_simps [simp]:
  "sumdef [] = 0" "sumdef (None # xs) = sumdef xs" "sumdef (Some v # xs) = v + sumdef xs"
  "sumdef (xs @ ys) = sumdef xs + sumdef ys"
  by (simp_all add: sumdef_def)

lemma sumdef_all_None: "filter (\<lambda>x. x \<noteq> None) xs = [] \<Longrightarrow> sumdef xs = 0"
  by (induction xs) (auto split: if_splits)

lemma length_cumsum_from [simp]: "length (cumsum_from acc xs) = length xs"
  by (induction acc xs rule: cumsum_from.induct) simp_all

lemma length_ffill_from [simp]: "length (ffill_from prev xs) = length xs"
  by (induction prev xs rule: ffill_from.induct) simp_all

lemma ffill_cumsum_append:
  "ffill_from prev (cumsum_from acc (xs @ ys)) =
     ffill_from prev (cumsum_from acc xs)
       @ ffill_from (run_from acc prev xs) (cumsum_from (acc + sumdef xs) ys)"
proof (induction acc xs arbitrary: prev rule: cumsum_from.induct)
  case (1 acc)
  show ?case by (simp add: run_from_def)
next
  case (2 acc xs)
  show ?case using 2 [of prev] by (simp add: run_from_def)
next
  case (3 acc x xs)
  show ?case using 3 [of "Some (acc + x)"] by (simp add: run_from_def add.assoc sumdef_all_None)
qed

lemma ffill_cumsum_Some:
  "ffill_from prev (cumsum_from acc (map Some vs)) =
     map (\<lambda>j. Some (acc + sum_list (take (Suc j) vs))) [0..<length vs]"
proof (induction vs arbitrary: acc prev)
  case Nil
  show ?case by simp
next
  case (Cons v vs)
  have "map (\<lambda>j. Some (acc + sum_list (take (Suc j) (v # vs)))) [0..<length (v # vs)] =
        Some (acc + v) # map (\<lambda>j. Some (acc + v + sum_list (take (Suc j) vs))) [0..<length vs]"
    by (simp add: map_upt_Suc add.assoc del: upt_Suc)
  then show ?case using Cons [of "Some (acc + v)" "acc + v"] by simp
qed

lemma merge_key_fst: "x \<in> set (merge_key l r k) \<Longrightarrow> fst x = k"
  by (auto simp: merge_key_def split: list.splits)

lemma rows_at_unit:
  "distinct p_dates \<Longrightarrow>
   rows_at k (map (\<lambda>d. (d, ())) p_dates) = (if k \<in> set p_dates then [()] else [])"
proof (induction p_dates)
  case Nil
  show ?case by (simp add: rows_at_def)
next
  case (Cons a p_dates)
  then show ?case by (auto simp: rows_at_def)
qed

lemma cells_block:
  assumes "distinct p_dates"
  shows "map (\<lambda>r. fst (snd r)) (merge_key l (map (\<lambda>d. (d, ())) p_dates) k) =
         (if rows_at k l = [] then (if k \<in> set p_dates then [None] else [])
          else map Some (rows_at k l))"
  by (auto simp: merge_key_def rows_at_unit [OF assms] comp_def split: list.splits)

lemma sum_list_filter_disj:
  "\<forall>x \<in> set xs. \<not> (P x \<and> Q x) \<Longrightarrow>
   sum_list (map f (filter P xs)) + sum_list (map f (filter Q xs)) =
   (sum_list (map f (filter (\<lambda>x. P x \<or> Q x) xs)) :: rat)"
  by (induction xs) auto

lemma sumdef_map_Some [simp]: "sumdef (map Some vs) = sum_list vs"
  by (induction vs) simp_all

lemma sumdef_map_Some_comp [simp]: "sumdef (map (Some \<circ> f) xs) = sum_list (map f xs)"
  by (induction xs) simp_all

lemma sumdef_blocks:
  assumes "distinct p_dates"
  shows "distinct ks \<Longrightarrow>
    sumdef (map (\<lambda>r. fst (snd r)) (concat (map (merge_key l (map (\<lambda>d. (d, ())) p_dates)) ks))) =
    sum_list (map snd (filter (\<lambda>r. fst r \<in> set ks) l))"
proof (induction ks)
  case Nil
  show ?case by simp
next
  case (Cons k ks)
  have blk: "sumdef (map (\<lambda>r. fst (snd r)) (merge_key l (map (\<lambda>d. (d, ())) p_dates) k)) =
             sum_list (map snd (filter (\<lambda>r. fst r = k) l))"
    by (simp add: cells_block [OF assms] rows_at_def)
  have "sum_list (map snd (filter (\<lambda>r. fst r = k) l)) +
        sum_list (map snd (filter (\<lambda>r. fst r \<in> set ks) l)) =
        sum_list (map snd (filter (\<lambda>r. fst r = k \<or> fst r \<in> set ks) l))"
    using Cons.prems by (intro sum_list_filter_disj) auto
  then show ?case using Cons blk by simp
qed

lemma defined_blocks:
  assumes "distinct p_dates"
  shows "(filter (\<lambda>x. x \<noteq> None)
           (map (\<lambda>r. fst (snd r)) (concat (map (merge_key l (map (\<lambda>d. (d, ())) p_dates)) ks))) = []) =
         (filter (\<lambda>r. fst r \<in> set ks) l = [])"
proof (induction ks)
  case Nil
  show ?case by simp
next
  case (Cons k ks)
  have blk: "(filter (\<lambda>x. x \<noteq> None)
               (map (\<lambda>r. fst (snd r)) (merge_key l (map (\<lambda>d. (d, ())) p_dates) k)) = []) =
             (filter (\<lambda>r. fst r = k) l = [])"
    by (auto simp: cells_block [OF assms] rows_at_def filter_empty_conv)
  show ?case using Cons blk by (auto simp: filter_empty_conv)
qed

lemma rows_at_zip_middle:
  assumes "\<forall>x \<in> set xs1. fst x \<noteq> d" "\<forall>x \<in> set xs2. fst x = d" "\<forall>x \<in> set xs3. fst x \<noteq> d"
    and "length ys1 = length xs1" "length ys2 = length xs2" "length ys3 = length xs3"
  shows "rows_at d (zip (map fst (xs1 @ xs2 @ xs3)) (ys1 @ ys2 @ ys3)) = ys2"
proof -
  have a: "filter (\<lambda>r. fst r = d) (zip (map fst xs) ys) = []"
    if "\<forall>x \<in> set xs. fst x \<noteq> d" for xs :: "(date \<times> 'a) list" and ys :: "'b list"
    using that by (auto simp: filter_empty_conv dest!: set_zip_leftD)
  have b: "filter (\<lambda>r. fst r = d) (zip (map fst xs2) ys2) = zip (map fst xs2) ys2"
    using assms(2) by (auto simp: filter_id_conv dest!: set_zip_leftD)
  have "zip (map fst (xs1 @ xs2 @ xs3)) (ys1 @ ys2 @ ys3) =
        zip (map fst xs1) ys1 @ zip (map fst xs2) ys2 @ zip (map fst xs3) ys3"
    using assms(4-6) by simp
  then show ?thesis
    using a [OF assms(1)] a [OF assms(3)] b assms(5) by (simp add: rows_at_def)
qed

lemma cumulative_volume_rows_split:
  assumes dp: "distinct p_dates"
    and ks: "sort (remdups (map fst vol_df @ p_dates)) = ks1 @ d # ks2"
  shows "rows_at d (cumulative_volume vol_df p_dates) =
     (if rows_at d vol_df = []
      then [if filter (\<lambda>r. fst r < d) vol_df = [] then None else Some (volume_before d vol_df)]
      else map (\<lambda>j. Some (volume_before d vol_df + sum_list (take (Suc j) (rows_at d vol_df))))
             [0..<length (rows_at d vol_df)])"
proof -
  let ?R = "map (\<lambda>d. (d, ())) p_dates"
  let ?B = "merge_key vol_df ?R"
  let ?c = "map (\<lambda>r. fst (snd r))"
  let ?P = "concat (map ?B ks1)" and ?Q = "concat (map ?B ks2)"
  have mapfst: "map fst ?R = p_dates" by (simp add: comp_def)
  have srt: "sorted (ks1 @ d # ks2)" and dst: "distinct (ks1 @ d # ks2)"
    and st: "set (ks1 @ d # ks2) = fst ` set vol_df \<union> set p_dates"
    using ks [symmetric] by simp_all
  have merged: "merge_ordered vol_df ?R = ?P @ ?B d @ ?Q"
    using ks by (simp add: merge_ordered_def comp_def)
  define acc where "acc = sumdef (?c ?P)"
  define prev where "prev = run_from 0 None (?c ?P)"
  have F: "ffill (cumsum (?c (?P @ ?B d @ ?Q))) =
           ffill_from None (cumsum_from 0 (?c ?P))
           @ ffill_from prev (cumsum_from acc (?c (?B d)))
           @ ffill_from (run_from acc prev (?c (?B d))) (cumsum_from (acc + sumdef (?c (?B d))) (?c ?Q))"
    by (simp add: ffill_def cumsum_def ffill_cumsum_append acc_def prev_def)
  have k1: "\<forall>x \<in> set ?P. fst x \<noteq> d" using dst by (auto dest!: merge_key_fst)
  have k3: "\<forall>x \<in> set ?Q. fst x \<noteq> d" using dst by (auto dest!: merge_key_fst)
  have k2: "\<forall>x \<in> set (?B d). fst x = d" by (auto dest!: merge_key_fst)
  have rows: "rows_at d (cumulative_volume vol_df p_dates) =
              ffill_from prev (cumsum_from acc (?c (?B d)))"
    unfolding cumulative_volume_def Let_def merged F
    by (rule rows_at_zip_middle [OF k1 k2 k3]) simp_all
  have lt: "(fst r \<in> set ks1) = (fst r < d)" if "r \<in> set vol_df" for r
  proof -
    have "fst r \<in> set (ks1 @ d # ks2)" using that st by auto
    moreover have "\<forall>x \<in> set ks1. x < d" using srt dst by (auto simp: sorted_append order_less_le)
    moreover have "\<forall>x \<in> set ks2. d < x" using srt dst by (auto simp: sorted_append order_less_le)
    ultimately show ?thesis using dst by auto
  qed
  have flt: "filter (\<lambda>r. fst r \<in> set ks1) vol_df = filter (\<lambda>r. fst r < d) vol_df"
    by (rule filter_cong) (simp_all add: lt)
  have acc_eq: "acc = volume_before d vol_df"
    using dst by (simp add: acc_def sumdef_blocks [OF dp] flt volume_before_def)
  have prev_eq: "prev = (if filter (\<lambda>r. fst r < d) vol_df = [] then None
                         else Some (volume_before d vol_df))"
    unfolding prev_def run_from_def defined_blocks [OF dp] flt acc_def [symmetric] acc_eq by simp
  have din: "rows_at d vol_df = [] \<Longrightarrow> d \<in> set p_dates"
  proof -
    assume "rows_at d vol_df = []"
    then have "d \<notin> fst ` set vol_df" by (auto simp: rows_at_def filter_empty_conv)
    moreover have "d \<in> fst ` set vol_df \<union> set p_dates" using st by auto
    ultimately show ?thesis by simp
  qed
  show ?thesis
  proof (cases "rows_at d vol_df = []")
    case True
    then show ?thesis using din rows prev_eq by (simp add: cells_block [OF dp])
  next
    case False
    then show ?thesis using rows acc_eq by (simp add: cells_block [OF dp] ffill_cumsum_Some)
  qed
qed

lemma cumulative_volume_rows:
  assumes dp: "distinct p_dates" and d: "d \<in> fst ` set vol_df \<union> set p_dates"
  shows "rows_at d (cumulative_volume vol_df p_dates) =
     (if rows_at d vol_df = []
      then [if filter (\<lambda>r. fst r < d) vol_df = [] then None else Some (volume_before d vol_df)]
      else map (\<lambda>j. Some (volume_before d vol_df + sum_list (take (Suc j) (rows_at d vol_df))))
             [0..<length (rows_at d vol_df)])"
proof -
  have "d \<in> set (sort (remdups (map fst vol_df @ p_dates)))" using d by simp
  then obtain ks1 ks2 where "sort (remdups (map fst vol_df @ p_dates)) = ks1 @ d # ks2"
    by (meson split_list)
  then show ?thesis by (rule cumulative_volume_rows_split [OF dp])
qed

lemma volume_upto_split:
  "volume_upto d vol_df = volume_before d vol_df + sum_list (rows_at d vol_df)"
proof -
  have "sum_list (map snd (filter (\<lambda>r. fst r < d) vol_df)) +
        sum_list (map snd (filter (\<lambda>r. fst r = d) vol_df)) =
        sum_list (map snd (filter (\<lambda>r. fst r < d \<or> fst r = d) vol_df))"
    by (intro sum_list_filter_disj) auto
  moreover have "(\<lambda>r :: date \<times> rat. fst r < d \<or> fst r = d) = (\<lambda>r. fst r \<le> d)"
    by (auto simp: fun_eq_iff)
  ultimately show ?thesis by (simp add: volume_upto_def volume_before_def rows_at_def)
qed

lemma last_rows:
  assumes dp: "distinct p_dates" and d: "d \<in> fst ` set vol_df \<union> set p_dates"
  shows "rows_at d (cumulative_volume vol_df p_dates) \<noteq> [] \<and>
         last (rows_at d (cumulative_volume vol_df p_dates)) =
           (if filter (\<lambda>r. fst r \<le> d) vol_df = [] then None else Some (volume_upto d vol_df))"
proof (cases "rows_at d vol_df = []")
  case True
  then have no: "\<forall>r \<in> set vol_df. fst r \<noteq> d" by (auto simp: rows_at_def filter_empty_conv)
  then have "filter (\<lambda>r. fst r \<le> d) vol_df = filter (\<lambda>r. fst r < d) vol_df"
    by (intro filter_cong) auto
  then show ?thesis using True
    by (simp add: cumulative_volume_rows [OF dp d] volume_upto_split)
next
  case False
  then have "filter (\<lambda>r. fst r \<le> d) vol_df \<noteq> []"
    by (auto simp: rows_at_def filter_empty_conv)
  then show ?thesis using False
    by (simp add: cumulative_volume_rows [OF dp d] volume_upto_split last_map del: upt_Suc)
qed

section \<open>The split adjustment, row by row\<close>

lemma length_cumprod_from [simp]: "length (cumprod_from acc xs) = length xs"
  by (induction acc xs rule: cumprod_from.induct) simp_all

lemma length_fillna [simp]: "length (fillna v xs) = length xs"
  by (simp add: fillna_def)

lemma length_stocksplit_cumulative [simp]:
  "length (stocksplit_cumulative start splits) = length splits - start"
  by (simp add: stocksplit_cumulative_def cumprod_def ffill_def)

lemma fillna_ffill_cumprod_nth:
  "j < length xs \<Longrightarrow> (prev = None \<and> acc = 1) \<or> prev = Some acc \<Longrightarrow>
   fillna 1 (ffill_from prev (cumprod_from acc xs)) ! j =
     Some (acc * prod_list (map factor_of (take (Suc j) xs)))"
proof (induction acc xs arbitrary: j prev rule: cumprod_from.induct)
  case (1 acc)
  then show ?case by simp
next
  case (2 acc xs)
  show ?case
  proof (cases j)
    case 0
    then show ?thesis using 2(3) by (auto simp: fillna_def factor_of_def)
  next
    case (Suc n)
    then have "n < length xs" using 2(2) by simp
    from 2(1) [OF this 2(3)] show ?thesis using Suc by (simp add: fillna_def factor_of_def)
  qed
next
  case (3 acc x xs)
  show ?case
  proof (cases j)
    case 0
    then show ?thesis by (simp add: fillna_def factor_of_def)
  next
    case (Suc n)
    then have "n < length xs" using 3(2) by simp
    from 3(1) [OF this, of "Some (acc * x)"] show ?thesis
      using Suc by (simp add: fillna_def factor_of_def mult.assoc)
  qed
qed

lemma stocksplit_cumulative_nth:
  assumes "start + j < length splits"
  shows "stocksplit_cumulative start splits ! j =
         Some (prod_list (map factor_of (take (Suc j) (drop start splits))))"
proof -
  have "j < length (drop start splits)" using assms by simp
  from fillna_ffill_cumprod_nth [OF this, of None 1] show ?thesis
    by (simp add: stocksplit_cumulative_def cumprod_def ffill_def)
qed

lemma first_valid_index_None:
  "first_valid_index s = None \<Longrightarrow> \<forall>r \<in> set s. snd r = None"
  by (auto simp: first_valid_index_def filter_empty_conv split: list.splits)

lemma before_first_valid:
  assumes "i < loc_start (first_valid_index s) (map fst s)" "i < length s"
  shows "snd (s ! i) = None"
proof (cases "first_valid_index s")
  case None
  then show ?thesis using assms by (simp add: loc_start_def)
next
  case (Some d)
  then obtain r rs where f: "filter (\<lambda>r. snd r \<noteq> None) s = r # rs" and d: "d = fst r"
    by (auto simp: first_valid_index_def split: list.splits)
  from f obtain us vs where s: "s = us @ r # vs" and us: "\<forall>u \<in> set us. \<not> snd u \<noteq> None"
    by (auto simp: filter_eq_Cons_iff)
  have "loc_start (first_valid_index s) (map fst s) \<le> length us"
  proof -
    have "length (takeWhile (\<lambda>x. x \<noteq> d) (map fst s)) \<le> length (map fst us)"
    proof (cases "\<forall>x \<in> set (map fst us). x \<noteq> d")
      case True
      then show ?thesis unfolding s d by (simp add: takeWhile_append)
    next
      case False
      then have "takeWhile (\<lambda>x. x \<noteq> d) (map fst s) = takeWhile (\<lambda>x. x \<noteq> d) (map fst us)"
        unfolding s by (auto simp: takeWhile_append)
      then show ?thesis using length_takeWhile_le by metis
    qed
    then show ?thesis using Some by (simp add: loc_start_def)
  qed
  then have "i < length us" using assms(1) by simp
  then show ?thesis using us s by (simp add: nth_append)
qed

lemma masked_nth: "i < length df \<Longrightarrow> masked df ! i = (fst (df ! i), replace_zero (snd (df ! i)))"
  by (simp add: masked_def)

lemma zip_masked: "zip (map fst df) (map (\<lambda>r. replace_zero (snd r)) df) = masked df"
  by (induction df) (simp_all add: masked_def)

lemma loc_start_le: "loc_start l idx \<le> length idx"
  by (cases l) (simp_all add: loc_start_def length_takeWhile_le)

lemma slice_start_le: "slice_start df \<le> length df"
  using loc_start_le [of "first_valid_index (masked df)" "map fst df"] by (simp add: slice_start_def)

lemma masked_before_start:
  assumes "i < slice_start df"
  shows "replace_zero (snd (df ! i)) = None"
proof -
  have i: "i < length (masked df)" using assms slice_start_le [of df] by (simp add: masked_def)
  have "i < loc_start (first_valid_index (masked df)) (map fst (masked df))"
    using assms by (simp add: slice_start_def masked_def comp_def)
  from before_first_valid [OF this i] show ?thesis using i by (simp add: masked_def)
qed

lemma stocksplits_unfold:
  "stocksplits df ticker (Actions acts) =
     ([CHR 0x0D # ''Checking '' @ ticker],
      if has_split acts then
        if slice_start df \<noteq> 0 \<and> \<not> distinct (drop (slice_start df) (map fst df))
        then Inl ValueError
        else Inr (zip (map fst df)
               (map ceil_cell (map2 mul_cell (map (\<lambda>r. replace_zero (snd r)) df)
                  (replicate (slice_start df) None
                     @ stocksplit_cumulative (slice_start df) (split_column acts (map fst df))))))
      else Inr df)"
  by (simp add: stocksplits_def Let_def zip_masked slice_start_def)

lemma adjusted_rows:
  "zip (map fst df)
     (map ceil_cell (map2 mul_cell (map (\<lambda>r. replace_zero (snd r)) df)
        (replicate (slice_start df) None
           @ stocksplit_cumulative (slice_start df) (split_column acts (map fst df))))) =
   map (\<lambda>i. (fst (df ! i),
          case replace_zero (snd (df ! i)) of
            None \<Rightarrow> None
          | Some v \<Rightarrow> Some (of_int \<lceil>v * prod_list (map factor_of
                (take (Suc i - slice_start df)
                   (drop (slice_start df) (split_column acts (map fst df)))))\<rceil>)))
     [0..<length df]"
  (is "?L = ?R")
proof (rule nth_equalityI)
  have len: "length (replicate (slice_start df) (None :: cell)
        @ stocksplit_cumulative (slice_start df) (split_column acts (map fst df))) = length df"
    using slice_start_le [of df] by (simp add: split_column_def)
  show "length ?L = length ?R" using len by simp
  fix i assume "i < length ?L"
  then have i: "i < length df" using len by simp
  show "?L ! i = ?R ! i"
  proof (cases "i < slice_start df")
    case True
    then show ?thesis using i len masked_before_start [OF True]
      by (simp add: nth_append mul_cell_def ceil_cell_def)
  next
    case False
    then have "slice_start df + (i - slice_start df) < length (split_column acts (map fst df))"
      using i by (simp add: split_column_def)
    from stocksplit_cumulative_nth [OF this] False i len show ?thesis
      by (simp add: nth_append mul_cell_def ceil_cell_def Suc_diff_le split: option.splits)
  qed
qed

lemma cumulative_factor_eq:
  "prod_list (map factor_of (take k (drop n (split_column acts ds)))) =
   prod_list (map (split_factor acts) (take k (drop n ds)))"
proof -
  have "factor_of (replace_zero (map_of acts d)) = split_factor acts d" for d
    by (simp add: factor_of_def split_factor_def replace_zero_def split: option.splits)
  then show ?thesis by (simp add: split_column_def drop_map take_map comp_def)
qed

lemma takeWhile_distinct_nth:
  "distinct xs \<Longrightarrow> i < length xs \<Longrightarrow> length (takeWhile (\<lambda>x. x \<noteq> xs ! i) xs) = i"
proof (induction xs arbitrary: i)
  case Nil
  then show ?case by simp
next
  case (Cons a xs)
  then show ?case by (cases i) auto
qed

lemma slice_start_distinct:
  assumes "distinct (map fst df)"
  shows "slice_start df = (if first_valid_index (masked df) = None then 0
                           else spec_first_defined (masked df))"
proof (cases "first_valid_index (masked df)")
  case None
  then show ?thesis by (simp add: slice_start_def loc_start_def)
next
  case (Some d)
  then obtain r rs where f: "filter (\<lambda>r. snd r \<noteq> None) (masked df) = r # rs" and d: "d = fst r"
    by (auto simp: first_valid_index_def split: list.splits)
  from f obtain us vs where s: "masked df = us @ r # vs" and us: "\<forall>u \<in> set us. \<not> snd u \<noteq> None"
    and r: "snd r \<noteq> None"
    by (auto simp: filter_eq_Cons_iff)
  have first: "spec_first_defined (masked df) = length us"
    using us r by (simp add: spec_first_defined_def s takeWhile_append)
  have idx: "map fst df = map fst (masked df)" by (simp add: masked_def comp_def)
  have "length us < length (map fst df)" unfolding idx s by simp
  moreover have "map fst df ! length us = d" unfolding idx s d by (simp add: nth_append)
  ultimately have "length (takeWhile (\<lambda>x. x \<noteq> d) (map fst df)) = length us"
    using takeWhile_distinct_nth [OF assms, of "length us"] by simp
  then show ?thesis using Some first by (simp add: slice_start_def loc_start_def)
qed

lemma stocksplits_spec_adjust:
  assumes "has_split acts" "distinct (map fst df)"
  shows "stocksplits df ticker (Actions acts) =
           ([CHR 0x0D # ''Checking '' @ ticker], Inr (spec_adjust acts df))"
proof -
  have rows: "map (\<lambda>i. (fst (df ! i),
          case replace_zero (snd (df ! i)) of
            None \<Rightarrow> None
          | Some v \<Rightarrow> Some (of_int \<lceil>v * prod_list (map factor_of
                (take (Suc i - slice_start df)
                   (drop (slice_start df) (split_column acts (map fst df)))))\<rceil>)))
     [0..<length df] = spec_adjust acts df"
  proof (cases "first_valid_index (masked df)")
    case None
    then have "\<forall>r \<in> set (masked df). snd r = None" by (rule first_valid_index_None)
    then have "\<And>i. i < length df \<Longrightarrow> replace_zero (snd (df ! i)) = None"
      by (auto simp: masked_def)
    then show ?thesis by (simp add: spec_adjust_def Let_def masked_nth)
  next
    case (Some d)
    then have eq: "slice_start df = spec_first_defined (masked df)"
      using slice_start_distinct [OF assms(2)] by simp
    show ?thesis
      unfolding spec_adjust_def Let_def spec_cumulative_factor_def cumulative_factor_eq eq
      by (simp add: masked_nth)
  qed
  have "distinct (drop (slice_start df) (map fst df))" using assms(2) by (rule distinct_drop)
  then show ?thesis unfolding stocksplits_unfold adjusted_rows rows using assms(1) by simp
qed

lemma stocksplits_rows:
  assumes "has_split acts" "stocksplits df ticker (Actions acts) = (out, Inr df')"
  shows "df' = map (\<lambda>i. (fst (df ! i),
          case replace_zero (snd (df ! i)) of
            None \<Rightarrow> None
          | Some v \<Rightarrow> Some (of_int \<lceil>v * prod_list (map (split_factor acts)
                (take (Suc i - slice_start df) (drop (slice_start df) (map fst df))))\<rceil>)))
     [0..<length df]"
  using assms unfolding stocksplits_unfold adjusted_rows cumulative_factor_eq
  by (simp split: if_splits)


lemma stocksplits_no_split:
  "\<not> has_split acts \<Longrightarrow>
   stocksplits df ticker (Actions acts) = ([CHR 0x0D # ''Checking '' @ ticker], Inr df)"
  by (simp add: stocksplits_unfold)

lemma prod_list_ones: "\<forall>x \<in> set xs. f x = (1::rat) \<Longrightarrow> prod_list (map f xs) = 1"
  by (induction xs) simp_all


lemma spec_adjust_no_factor:
  assumes "\<forall>r \<in> set df. split_factor acts (fst r) = 1"
  shows "spec_adjust acts df = map (\<lambda>r. (fst r, ceil_cell (replace_zero (snd r)))) df"
proof (rule nth_equalityI)
  show "length (spec_adjust acts df) = length (map (\<lambda>r. (fst r, ceil_cell (replace_zero (snd r)))) df)"
    by (simp add: spec_adjust_def Let_def)
  fix i assume "i < length (spec_adjust acts df)"
  then have i: "i < length df" by (simp add: spec_adjust_def Let_def)
  have "\<forall>x \<in> set (take k (drop n (map fst df))). split_factor acts x = 1" for k n
    using assms by (auto dest!: in_set_takeD in_set_dropD)
  then have one: "spec_cumulative_factor acts (map fst df) n i = 1" for n
    unfolding spec_cumulative_factor_def by (intro prod_list_ones) blast
  show "spec_adjust acts df ! i = map (\<lambda>r. (fst r, ceil_cell (replace_zero (snd r)))) df ! i"
    using i unfolding spec_adjust_def Let_def
    by (simp add: masked_nth ceil_cell_def one split: option.splits)
qed


section \<open>The ordered merge\<close>

lemma filter_concat_blocks:
  assumes "\<And>k x. x \<in> set (B k) \<Longrightarrow> fst x = k"
  shows "distinct ks \<Longrightarrow>
    filter (\<lambda>x. fst x = d) (concat (map B ks)) = (if d \<in> set ks then B d else [])"
proof (induction ks)
  case Nil
  show ?case by simp
next
  case (Cons k ks)
  have all: "filter (\<lambda>x. fst x = d) (B d) = B d"
    using assms by (auto simp: filter_id_conv)
  have none: "k \<noteq> d \<Longrightarrow> filter (\<lambda>x. fst x = d) (B k) = []"
    using assms by (auto simp: filter_empty_conv)
  show ?case using Cons all none by auto
qed

lemma merge_key_empty:
  "d \<notin> fst ` set l \<Longrightarrow> d \<notin> fst ` set r \<Longrightarrow> merge_key l r d = []"
proof -
  assume "d \<notin> fst ` set l" "d \<notin> fst ` set r"
  then have "rows_at d l = []" "rows_at d r = []"
    by (auto simp: rows_at_def filter_empty_conv)
  then show ?thesis by (simp add: merge_key_def)
qed

lemma merge_ordered_rows:
  "filter (\<lambda>x. fst x = d) (merge_ordered l r) = merge_key l r d"
proof -
  have "filter (\<lambda>x. fst x = d) (merge_ordered l r) =
        (if d \<in> set (sort (remdups (map fst l @ map fst r))) then merge_key l r d else [])"
    unfolding merge_ordered_def
    by (rule filter_concat_blocks) (auto dest: merge_key_fst)
  then show ?thesis using merge_key_empty [of d l r] by auto
qed

lemma set_merge_ordered:
  "set (merge_ordered l r) = (\<Union>k \<in> fst ` set l \<union> fst ` set r. set (merge_key l r k))"
  by (simp add: merge_ordered_def)




lemma merge_key_cases:
  assumes "x \<in> set (merge_key l r k)"
  shows "fst x = k \<and>
         (fst (snd x) = None \<or> (\<exists>a \<in> set (rows_at k l). fst (snd x) = Some a)) \<and>
         (snd (snd x) = None \<or> (\<exists>b \<in> set (rows_at k r). snd (snd x) = Some b))"
  using assms by (auto simp: merge_key_def split: list.splits)


lemma merge_key_nonempty:
  "k \<in> fst ` set l \<union> fst ` set r \<Longrightarrow> merge_key l r k \<noteq> []"
proof -
  assume "k \<in> fst ` set l \<union> fst ` set r"
  then have "rows_at k l \<noteq> [] \<or> rows_at k r \<noteq> []"
    by (auto simp: rows_at_def filter_empty_conv)
  then show ?thesis by (auto simp: merge_key_def split: list.splits)
qed

lemma fst_set_merge_ordered:
  "fst ` set (merge_ordered l r) = fst ` set l \<union> fst ` set r"
proof
  show "fst ` set (merge_ordered l r) \<subseteq> fst ` set l \<union> fst ` set r"
    by (auto simp: set_merge_ordered dest!: merge_key_fst)
  show "fst ` set l \<union> fst ` set r \<subseteq> fst ` set (merge_ordered l r)"
  proof
    fix k assume k: "k \<in> fst ` set l \<union> fst ` set r"
    then obtain x where x: "x \<in> set (merge_key l r k)"
      using merge_key_nonempty [OF k] by (cases "merge_key l r k") auto
    then have "fst x = k" by (rule merge_key_fst)
    moreover have "x \<in> set (merge_ordered l r)" using x k unfolding set_merge_ordered by blast
    ultimately show "k \<in> fst ` set (merge_ordered l r)" by force
  qed
qed

lemma merge_close_set:
  "x \<in> set (merge_close df cl) \<longleftrightarrow>
     (\<exists>y \<in> set (merge_ordered df cl). x = (fst y, flat_cell (fst (snd y)), flat_cell (snd (snd y))))"
  by (auto simp: merge_close_def)


lemma merge_close_cells:
  assumes "x \<in> set (merge_close df cl)"
  shows "(fst (snd x) = None \<or> fst (snd x) \<in> set (rows_at (fst x) df)) \<and>
         (snd (snd x) = None \<or> snd (snd x) \<in> set (rows_at (fst x) cl))"
proof -
  from assms obtain y where y: "y \<in> set (merge_ordered df cl)"
    and x: "x = (fst y, flat_cell (fst (snd y)), flat_cell (snd (snd y)))"
    by (auto simp: merge_close_set)
  from y obtain k where "y \<in> set (merge_key df cl k)" by (auto simp: set_merge_ordered)
  from merge_key_cases [OF this] show ?thesis unfolding x
    by (auto simp: flat_cell_def)
qed



lemma rows_at_empty: "k \<notin> fst ` set xs \<Longrightarrow> rows_at k xs = []"
  by (induction xs) (auto simp: rows_at_def)

lemma merge_close_keeps_unheld:
  assumes "r \<in> set cl" "rows_at (fst r) df = []"
  shows "(fst r, None, snd r) \<in> set (merge_close df cl)"
proof -
  have "snd r \<in> set (rows_at (fst r) cl)" using assms(1) by (force simp: rows_at_def)
  then have "(fst r, None, Some (snd r)) \<in> set (merge_key df cl (fst r))"
    using assms(2) by (auto simp: merge_key_def split: list.splits)
  moreover have "fst r \<in> fst ` set df \<union> fst ` set cl" using assms(1) by auto
  ultimately have "(fst r, None, Some (snd r)) \<in> set (merge_ordered df cl)"
    unfolding set_merge_ordered by blast
  then show ?thesis unfolding merge_close_set by (force simp: flat_cell_def)
qed

section \<open>The rows of the portfolio frame\<close>

lemma stocksplits_index:
  assumes "stocksplits df ticker lk = (out, Inr df')"
  shows "map fst df' = map fst df"
proof (cases lk)
  case (Raises e)
  then show ?thesis using assms by (auto simp: stocksplits_def Let_def split: if_splits)
next
  case (Actions acts)
  show ?thesis
  proof (cases "has_split acts")
    case True
    have "df' = map (\<lambda>i. (fst (df ! i),
          case replace_zero (snd (df ! i)) of
            None \<Rightarrow> None
          | Some v \<Rightarrow> Some (of_int \<lceil>v * prod_list (map (split_factor acts)
                (take (Suc i - slice_start df) (drop (slice_start df) (map fst df))))\<rceil>)))
     [0..<length df]"
      using assms unfolding Actions by (rule stocksplits_rows [OF True])
    then have "map fst df' = map (\<lambda>i. fst (df ! i)) [0..<length df]" by (simp add: comp_def)
    also have "\<dots> = map fst df" by (rule nth_equalityI) simp_all
    finally show ?thesis .
  next
    case False
    then show ?thesis using assms Actions by (simp add: stocksplits_no_split)
  qed
qed

lemma fst_cumulative_volume:
  "map fst (cumulative_volume vol_df p_dates) =
   map fst (merge_ordered vol_df (map (\<lambda>d. (d, ())) p_dates))"
  by (simp add: cumulative_volume_def Let_def ffill_def cumsum_def)

lemma notna_after_first_trade:
  assumes dp: "distinct p_dates" and r: "r \<in> set (notna_rows (cumulative_volume vol_df p_dates))"
  shows "\<exists>tr \<in> set vol_df. fst tr \<le> fst r"
proof -
  let ?cv = "cumulative_volume vol_df p_dates"
  from r have rin: "r \<in> set ?cv" and def: "snd r \<noteq> None" by (auto simp: notna_rows_def)
  have "fst r \<in> set (map fst ?cv)" using rin by simp
  then have "fst r \<in> fst ` set (merge_ordered vol_df (map (\<lambda>d. (d, ())) p_dates))"
    unfolding fst_cumulative_volume by simp
  then have d: "fst r \<in> fst ` set vol_df \<union> set p_dates"
    by (simp add: fst_set_merge_ordered image_image)
  have "snd r \<in> set (rows_at (fst r) ?cv)" using rin by (force simp: rows_at_def)
  then have "rows_at (fst r) vol_df \<noteq> [] \<or> filter (\<lambda>x. fst x < fst r) vol_df \<noteq> []"
    using def unfolding cumulative_volume_rows [OF dp d] by (auto split: if_splits)
  then obtain tr where "tr \<in> set vol_df" "fst tr = fst r \<or> fst tr < fst r"
    by (auto simp: rows_at_def filter_empty_conv)
  then show ?thesis by (intro bexI [of _ tr]) auto
qed

lemma set_by_ticker:
  "set (by_ticker trades ticker) = {t \<in> set trades. trade_ticker t = ticker}"
  by (auto simp: by_ticker_def)

lemma ticker_rows_row:
  assumes tr: "ticker_rows trades p_dates close actions ticker = (out, Inr rows)"
    and dp: "distinct p_dates" and x: "x \<in> set rows"
  shows "fst (snd x) = ticker \<and>
         (fst (snd (snd x)) \<noteq> None \<longrightarrow>
            (\<exists>t \<in> set trades. trade_ticker t = ticker \<and> trade_date t \<le> fst x))"
proof -
  let ?vol = "map (\<lambda>t. (trade_date t, trade_volume t)) (by_ticker trades ticker)"
  let ?df = "notna_rows (cumulative_volume ?vol p_dates)"
  from tr obtain adjusted where st: "stocksplits ?df ticker (actions ticker) = (out, Inr adjusted)"
    and rows: "rows = map (\<lambda>r. (fst r, ticker, fst (snd r), snd (snd r))) (merge_close adjusted (close ticker))"
    by (auto simp: ticker_rows_def Let_def split: prod.splits sum.splits)
  from x rows obtain y where y: "y \<in> set (merge_close adjusted (close ticker))"
    and xy: "x = (fst y, ticker, fst (snd y), snd (snd y))" by auto
  have t: "fst (snd x) = ticker" using xy by simp
  have "\<exists>t \<in> set trades. trade_ticker t = ticker \<and> trade_date t \<le> fst x"
    if "fst (snd (snd x)) \<noteq> None"
  proof -
    have "fst (snd (snd x)) = fst (snd y)" unfolding xy by simp
    then have "fst (snd y) \<noteq> None" using that by simp
    then have "fst (snd y) \<in> set (rows_at (fst y) adjusted)"
      using merge_close_cells [OF y] by auto
    then have "fst y \<in> set (map fst adjusted)" by (force simp: rows_at_def)
    then have "fst y \<in> set (map fst ?df)" using stocksplits_index [OF st] by simp
    then obtain r where r: "r \<in> set ?df" "fst r = fst y" by auto
    from notna_after_first_trade [OF dp r(1)] obtain v where v: "v \<in> set ?vol" "fst v \<le> fst r"
      by blast
    from v(1) obtain t where t: "t \<in> set (by_ticker trades ticker)"
      "v = (trade_date t, trade_volume t)" by auto
    have "t \<in> set trades" "trade_ticker t = ticker" using t(1) by (simp_all add: set_by_ticker)
    moreover have "trade_date t \<le> fst x" using v(2) t(2) r(2) xy by simp
    ultimately show ?thesis by blast
  qed
  then show ?thesis using t by blast
qed

lemma build_loop_rows:
  "build_loop trades p_dates close actions tickers df_pfolio = (out, Inr res) \<Longrightarrow>
   x \<in> set res \<Longrightarrow>
   x \<in> set df_pfolio \<or>
   (\<exists>t \<in> set tickers. \<exists>o' rows.
      ticker_rows trades p_dates close actions t = (o', Inr rows) \<and> x \<in> set rows)"
proof (induction tickers arbitrary: df_pfolio out)
  case Nil
  then show ?case by simp
next
  case (Cons t ts)
  from Cons.prems(1) obtain o1 rows o2 where
    tr: "ticker_rows trades p_dates close actions t = (o1, Inr rows)" and
    bl: "build_loop trades p_dates close actions ts (df_pfolio @ rows) = (o2, Inr res)"
    by (auto split: prod.splits sum.splits)
  from Cons.IH [OF bl Cons.prems(2)] tr show ?case by auto
qed

lemma build_table:
  assumes "build trades today close actions = (out, Inr table)"
  shows "\<exists>o' df_pfolio.
     build_loop trades (date_list (trade_date (hd trades)) today) close actions
        (sort (remdups (map trade_ticker trades))) [] = (o', Inr df_pfolio) \<and>
     table = map assign_value (sort_key (\<lambda>r. (fst r, fst (snd r))) df_pfolio)"
  using assms
  by (auto simp: build_def Let_def split: list.splits if_splits prod.splits sum.splits)

lemma build_loop_TypeError:
  "\<forall>t. actions t = Raises TypeError \<Longrightarrow>
   \<exists>out res. build_loop trades p_dates close actions tickers df_pfolio = (out, Inr res)"
proof (induction tickers arbitrary: df_pfolio)
  case Nil
  show ?case by simp
next
  case (Cons t ts)
  have st: "stocksplits df t (actions t) =
      ([CHR 0x0D # ''Checking '' @ t, CHR 0x0D # ''Something went wrong!''], Inr df)" for df
    using Cons.prems by (simp add: stocksplits_def)
  obtain rows where tr: "ticker_rows trades p_dates close actions t =
      ([CHR 0x0D # ''Checking '' @ t, CHR 0x0D # ''Something went wrong!''], Inr rows)"
    by (simp add: ticker_rows_def Let_def st)
  from Cons.IH [OF Cons.prems, of "df_pfolio @ rows"] obtain o2 res where
    "build_loop trades p_dates close actions ts (df_pfolio @ rows) = (o2, Inr res)" by blast
  then show ?case using tr by simp
qed

lemma build_loop_all:
  "build_loop trades p_dates close actions tickers df_pfolio = (out, Inr res) \<Longrightarrow>
   set df_pfolio \<subseteq> set res \<and>
   (\<forall>t \<in> set tickers. \<exists>o' rows.
      ticker_rows trades p_dates close actions t = (o', Inr rows) \<and> set rows \<subseteq> set res)"
proof (induction tickers arbitrary: df_pfolio out)
  case Nil
  then show ?case by simp
next
  case (Cons t ts)
  from Cons.prems obtain o1 rows o2 where
    tr: "ticker_rows trades p_dates close actions t = (o1, Inr rows)" and
    bl: "build_loop trades p_dates close actions ts (df_pfolio @ rows) = (o2, Inr res)"
    by (auto split: prod.splits sum.splits)
  from Cons.IH [OF bl] have sub: "set (df_pfolio @ rows) \<subseteq> set res"
    and rest: "\<forall>t \<in> set ts. \<exists>o' rows.
      ticker_rows trades p_dates close actions t = (o', Inr rows) \<and> set rows \<subseteq> set res"
    by blast+
  from sub have "set df_pfolio \<subseteq> set res" "set rows \<subseteq> set res" by auto
  then show ?case using tr rest by auto
qed

lemma ticker_rows_before_first_trade:
  assumes tr: "ticker_rows trades p_dates close actions ticker = (out, Inr rows)"
    and dp: "distinct p_dates" and r: "r \<in> set (close ticker)"
    and before: "\<forall>t \<in> set trades. trade_ticker t = ticker \<longrightarrow> fst r < trade_date t"
  shows "(fst r, ticker, None, snd r) \<in> set rows"
proof -
  let ?vol = "map (\<lambda>t. (trade_date t, trade_volume t)) (by_ticker trades ticker)"
  let ?df = "notna_rows (cumulative_volume ?vol p_dates)"
  from tr obtain adjusted where st: "stocksplits ?df ticker (actions ticker) = (out, Inr adjusted)"
    and rows: "rows = map (\<lambda>r. (fst r, ticker, fst (snd r), snd (snd r))) (merge_close adjusted (close ticker))"
    by (auto simp: ticker_rows_def Let_def split: prod.splits sum.splits)
  have "fst r \<notin> set (map fst ?df)"
  proof
    assume "fst r \<in> set (map fst ?df)"
    then obtain x where x: "x \<in> set ?df" "fst x = fst r" by auto
    from notna_after_first_trade [OF dp x(1)] obtain v where v: "v \<in> set ?vol" "fst v \<le> fst x"
      by blast
    from v(1) obtain t where t: "t \<in> set (by_ticker trades ticker)"
      "v = (trade_date t, trade_volume t)" by auto
    have "t \<in> set trades" "trade_ticker t = ticker" using t(1) by (simp_all add: set_by_ticker)
    then have "fst r < trade_date t" using before by blast
    then show False using v(2) t(2) x(2) by simp
  qed
  then have "fst r \<notin> set (map fst adjusted)" using stocksplits_index [OF st] by simp
  then have "rows_at (fst r) adjusted = []" by (intro rows_at_empty) simp
  from merge_close_keeps_unheld [OF r this]
  have "(fst r, None, snd r) \<in> set (merge_close adjusted (close ticker))" .
  then show ?thesis unfolding rows by force
qed

lemma build_rows:
  assumes "build trades today close actions = (out, Inr table)"
    and "t \<in> set (map trade_ticker trades)"
  shows "\<exists>o' rows.
     ticker_rows trades (date_list (trade_date (hd trades)) today) close actions t = (o', Inr rows) \<and>
     assign_value ` set rows \<subseteq> set table"
proof -
  from build_table [OF assms(1)] obtain o' df_pfolio where
    bl: "build_loop trades (date_list (trade_date (hd trades)) today) close actions
        (sort (remdups (map trade_ticker trades))) [] = (o', Inr df_pfolio)"
    and tab: "table = map assign_value (sort_key (\<lambda>r. (fst r, fst (snd r))) df_pfolio)"
    by blast
  have "t \<in> set (sort (remdups (map trade_ticker trades)))" using assms(2) by simp
  with build_loop_all [OF bl] obtain o2 rows where
    "ticker_rows trades (date_list (trade_date (hd trades)) today) close actions t = (o2, Inr rows)"
    "set rows \<subseteq> set df_pfolio" by blast
  then show ?thesis unfolding tab by auto
qed

section \<open>The claims\<close>

subsection \<open>C1: the running sum of the volumes\<close>

text \<open>
  Claim C1, as the code has it. After lines 65 and 66 every date \<open>d\<close> of the instrument's
  frame (a date of the dense sequence or a trade date) has at least one row. The last
  row of \<open>d\<close> holds the sum of the signed volumes of all trade rows dated \<open>d\<close> or
  earlier, and is NaN, not zero, when no trade row is dated \<open>d\<close> or earlier. A date with
  at most one trade row has that one row only. The quantity is flat: it is the same at
  \<open>d'\<close> and at a later \<open>d\<close> when no trade row is dated after \<open>d'\<close> and up to \<open>d\<close>. A
  date with several trade rows has one row per trade row, row \<open>j\<close> holding the volumes
  dated before \<open>d\<close> plus the first \<open>j + 1\<close> volumes of \<open>d\<close>: only the last of them holds
  the sum of all volumes up to the date.
\<close>

theorem cumulative_quantity_running_sum:
  assumes "distinct p_dates" and "d \<in> fst ` set vol_df \<union> set p_dates"
  shows "rows_at d (cumulative_volume vol_df p_dates) \<noteq> [] \<and>
     last (rows_at d (cumulative_volume vol_df p_dates)) =
       (if filter (\<lambda>r. fst r \<le> d) vol_df = [] then None else Some (volume_upto d vol_df)) \<and>
     (length (rows_at d vol_df) \<le> 1 \<longrightarrow>
        rows_at d (cumulative_volume vol_df p_dates) =
          [if filter (\<lambda>r. fst r \<le> d) vol_df = [] then None else Some (volume_upto d vol_df)]) \<and>
     (\<forall>d'. d' \<in> fst ` set vol_df \<union> set p_dates \<and> d' \<le> d \<and>
           filter (\<lambda>r. d' < fst r \<and> fst r \<le> d) vol_df = [] \<longrightarrow>
        last (rows_at d (cumulative_volume vol_df p_dates)) =
        last (rows_at d' (cumulative_volume vol_df p_dates))) \<and>
     (rows_at d vol_df \<noteq> [] \<longrightarrow>
        rows_at d (cumulative_volume vol_df p_dates) =
          map (\<lambda>j. Some (volume_before d vol_df + sum_list (take (Suc j) (rows_at d vol_df))))
            [0..<length (rows_at d vol_df)])"
proof -
  let ?cv = "cumulative_volume vol_df p_dates"
  note L = last_rows [OF assms]
  have one: "rows_at d ?cv = [last (rows_at d ?cv)]" if "length (rows_at d vol_df) \<le> 1"
  proof -
    have "length (rows_at d ?cv) = 1"
      using that by (auto simp: cumulative_volume_rows [OF assms] le_Suc_eq)
    then show ?thesis by (cases "rows_at d ?cv") simp_all
  qed
  have flat: "last (rows_at d ?cv) = last (rows_at d' ?cv)"
    if d': "d' \<in> fst ` set vol_df \<union> set p_dates" and le: "d' \<le> d"
      and none: "filter (\<lambda>r. d' < fst r \<and> fst r \<le> d) vol_df = []" for d'
  proof -
    have "filter (\<lambda>r. fst r \<le> d) vol_df = filter (\<lambda>r. fst r \<le> d') vol_df"
      using none le by (intro filter_cong) (auto simp: filter_empty_conv)
    then show ?thesis using L last_rows [OF assms(1) d'] by (simp add: volume_upto_def)
  qed
  have part: "rows_at d ?cv =
          map (\<lambda>j. Some (volume_before d vol_df + sum_list (take (Suc j) (rows_at d vol_df))))
            [0..<length (rows_at d vol_df)]"
    if "rows_at d vol_df \<noteq> []"
    using that by (simp add: cumulative_volume_rows [OF assms])
  show ?thesis using L one flat part by auto
qed

theorem cumulative_quantity_running_sum_witness:
  "distinct [1, 2, 3, 4 :: date] \<and>
   rows_at 1 (cumulative_volume [(2, 100), (2, 50), (4, - 40)] [1, 2, 3, 4]) = [None] \<and>
   last (rows_at 2 (cumulative_volume [(2, 100), (2, 50), (4, - 40)] [1, 2, 3, 4])) = Some 150 \<and>
   rows_at 3 (cumulative_volume [(2, 100), (2, 50), (4, - 40)] [1, 2, 3, 4]) = [Some 150] \<and>
   rows_at 4 (cumulative_volume [(2, 100), (2, 50), (4, - 40)] [1, 2, 3, 4]) = [Some 110]"
proof -
  let ?vol = "[(2, 100), (2, 50), (4, - 40)] :: (date \<times> rat) list"
  let ?cv = "cumulative_volume ?vol [1, 2, 3, 4]"
  have d: "distinct [1, 2, 3, 4 :: date]" by simp
  have m: "1 \<in> fst ` set ?vol \<union> set [1, 2, 3, 4]" "2 \<in> fst ` set ?vol \<union> set [1, 2, 3, 4]"
    "3 \<in> fst ` set ?vol \<union> set [1, 2, 3, 4]" "4 \<in> fst ` set ?vol \<union> set [1, 2, 3, 4]"
    by simp_all
  have n: "length (rows_at 1 ?vol) \<le> 1" "length (rows_at 3 ?vol) \<le> 1" "length (rows_at 4 ?vol) \<le> 1"
    by (simp_all add: rows_at_def)
  have "rows_at 1 ?cv = [if filter (\<lambda>r. fst r \<le> 1) ?vol = [] then None
                         else Some (volume_upto 1 ?vol)]"
    using cumulative_quantity_running_sum [OF d m(1)] n(1) by blast
  then have r1: "rows_at 1 ?cv = [None]" by simp
  have "last (rows_at 2 ?cv) = (if filter (\<lambda>r. fst r \<le> 2) ?vol = [] then None
                                else Some (volume_upto 2 ?vol))"
    using cumulative_quantity_running_sum [OF d m(2)] by blast
  then have r2: "last (rows_at 2 ?cv) = Some 150" by (simp add: volume_upto_def)
  have "rows_at 3 ?cv = [if filter (\<lambda>r. fst r \<le> 3) ?vol = [] then None
                         else Some (volume_upto 3 ?vol)]"
    using cumulative_quantity_running_sum [OF d m(3)] n(2) by blast
  then have r3: "rows_at 3 ?cv = [Some 150]" by (simp add: volume_upto_def)
  have "rows_at 4 ?cv = [if filter (\<lambda>r. fst r \<le> 4) ?vol = [] then None
                         else Some (volume_upto 4 ?vol)]"
    using cumulative_quantity_running_sum [OF d m(4)] n(3) by blast
  then have r4: "rows_at 4 ?cv = [Some 110]" by (simp add: volume_upto_def)
  show ?thesis using d r1 r2 r3 r4 by simp
qed

text \<open>The claim as stated fails where two trade rows share a date: the first row of
  date 1 holds 100, the sum of the volumes dated up to 1 is 150.\<close>

theorem cumulative_quantity_counterexample:
  "cumulative_volume [(1, 100), (1, 50)] [1, 2] = [(1, Some 100), (1, Some 150), (2, Some 150)] \<and>
   volume_upto 1 [(1, 100), (1, 50)] = 150"
  by code_simp

subsection \<open>C6: several trade rows on one date\<close>

text \<open>
  Claim C6, as the code has it. Nothing sums the volumes of one date before the merge of
  line 65: under a trade date \<open>d\<close> the merged frame has one row per trade row of \<open>d\<close>,
  each with its own volume. After \<open>cumsum().ffill()\<close> row \<open>j\<close> of the date holds the
  sum of the volumes dated before \<open>d\<close> plus the first \<open>j + 1\<close> volumes of \<open>d\<close>, so the
  last row of the date holds the volumes before \<open>d\<close> plus the sum of all volumes of
  \<open>d\<close>: no volume is lost or overwritten, and a date contributes as many rows as it has
  trade rows.
\<close>

theorem same_date_rows_kept_apart:
  assumes "distinct p_dates" and "d \<in> fst ` set vol_df"
  shows "map (\<lambda>r. fst (snd r))
           (filter (\<lambda>r. fst r = d) (merge_ordered vol_df (map (\<lambda>d. (d, ())) p_dates))) =
         map Some (rows_at d vol_df) \<and>
     rows_at d (cumulative_volume vol_df p_dates) =
       map (\<lambda>j. Some (volume_before d vol_df + sum_list (take (Suc j) (rows_at d vol_df))))
         [0..<length (rows_at d vol_df)] \<and>
     last (rows_at d (cumulative_volume vol_df p_dates)) =
       Some (volume_before d vol_df + sum_list (rows_at d vol_df))"
proof -
  have ne: "rows_at d vol_df \<noteq> []" using assms(2) by (auto simp: rows_at_def filter_empty_conv)
  have d: "d \<in> fst ` set vol_df \<union> set p_dates" using assms(2) by simp
  have a: "map (\<lambda>r. fst (snd r))
           (filter (\<lambda>r. fst r = d) (merge_ordered vol_df (map (\<lambda>d. (d, ())) p_dates))) =
         map Some (rows_at d vol_df)"
    using ne by (simp add: merge_ordered_rows cells_block [OF assms(1)])
  have b: "rows_at d (cumulative_volume vol_df p_dates) =
       map (\<lambda>j. Some (volume_before d vol_df + sum_list (take (Suc j) (rows_at d vol_df))))
         [0..<length (rows_at d vol_df)]"
    using ne by (simp add: cumulative_volume_rows [OF assms(1) d])
  have c: "last (rows_at d (cumulative_volume vol_df p_dates)) =
       Some (volume_before d vol_df + sum_list (rows_at d vol_df))"
    using ne unfolding b by (simp add: last_map del: upt_Suc)
  show ?thesis using a b c by blast
qed

theorem same_date_rows_kept_apart_witness:
  "distinct [3, 4 :: date] \<and> (3 :: date) \<in> fst ` set [(3, 10 :: rat), (3, 20), (3, - 5)] \<and>
   rows_at 3 (cumulative_volume [(3, 10), (3, 20), (3, - 5)] [3, 4]) = [Some 10, Some 30, Some 25]"
  using same_date_rows_kept_apart [of "[3, 4]" 3 "[(3, 10), (3, 20), (3, - 5)]"]
  by (simp add: volume_before_def rows_at_def)

text \<open>Three trade rows on date 3 give three rows of date 3 in the merged frame and in
  the cumulative frame, not one.\<close>

theorem same_date_rows_counterexample:
  "map (\<lambda>r. (fst r, fst (snd r))) (merge_ordered [(3, 10 :: rat), (3, 20), (3, - 5)] (map (\<lambda>d. (d, ())) [3, 4])) =
     [(3, Some 10), (3, Some 20), (3, Some (- 5)), (4, None)] \<and>
   cumulative_volume [(3, 10), (3, 20), (3, - 5)] [3, 4] =
     [(3, Some 10), (3, Some 30), (3, Some 25), (4, Some 25)]"
  by code_simp

subsection \<open>C2: the adjusted quantity\<close>



subsection \<open>C3: the merge with the prices\<close>




subsection \<open>C4: dates before the first trade\<close>

text \<open>
  Claim C4, as the code has it. In the frame \<open>build\<close> returns, a row of an instrument
  dated before every trade of that instrument has no quantity and no value: the quantity
  is defined from the first trade date on only. Such rows exist, though: for every row
  of the instrument's price column dated before every trade of the instrument, the
  outer join of line 73 puts a row with that date and price, and no quantity, into the
  frame.
\<close>

theorem no_quantity_before_first_trade:
  assumes "build trades today close actions = (out, Inr table)"
  shows "(\<forall>h \<in> set table.
            (\<forall>t \<in> set trades. trade_ticker t = Ticker h \<longrightarrow> Date h < trade_date t) \<longrightarrow>
            Volume h = None \<and> Value h = None) \<and>
         (\<forall>ticker \<in> set (map trade_ticker trades). \<forall>r \<in> set (close ticker).
            (\<forall>t \<in> set trades. trade_ticker t = ticker \<longrightarrow> fst r < trade_date t) \<longrightarrow>
            \<lparr>Date = fst r, Ticker = ticker, Volume = None, Close = snd r, Value = None\<rparr>
              \<in> set table)"
proof -
  have dp: "distinct (date_list (trade_date (hd trades)) today)" by (simp add: date_list_def)
  have undefined_before: "Volume h = None \<and> Value h = None"
    if hin: "h \<in> set table"
      and before: "\<forall>t \<in> set trades. trade_ticker t = Ticker h \<longrightarrow> Date h < trade_date t" for h
  proof -
    from build_table [OF assms] obtain o' df_pfolio where
      bl: "build_loop trades (date_list (trade_date (hd trades)) today) close actions
          (sort (remdups (map trade_ticker trades))) [] = (o', Inr df_pfolio)"
      and tab: "table = map assign_value (sort_key (\<lambda>r. (fst r, fst (snd r))) df_pfolio)"
      by blast
    from hin tab obtain x where x: "x \<in> set df_pfolio" and h: "h = assign_value x" by auto
    from build_loop_rows [OF bl x] obtain t o2 rows where
      tr: "ticker_rows trades (date_list (trade_date (hd trades)) today) close actions t = (o2, Inr rows)"
      and xr: "x \<in> set rows" by auto
    note row = ticker_rows_row [OF tr dp xr]
    have "fst (snd (snd x)) = None"
    proof (rule ccontr)
      assume "fst (snd (snd x)) \<noteq> None"
      with row obtain t' where "t' \<in> set trades" "trade_ticker t' = t" "trade_date t' \<le> fst x"
        by blast
      moreover have "Ticker h = t" "Date h = fst x" using row h by (simp_all add: assign_value_def)
      ultimately show False using before by force
    qed
    then show ?thesis using h by (simp add: assign_value_def mul_cell_def)
  qed
  have row_before: "\<lparr>Date = fst r, Ticker = ticker, Volume = None, Close = snd r, Value = None\<rparr>
              \<in> set table"
    if t: "ticker \<in> set (map trade_ticker trades)" and r: "r \<in> set (close ticker)"
      and before: "\<forall>t \<in> set trades. trade_ticker t = ticker \<longrightarrow> fst r < trade_date t"
    for ticker r
  proof -
    from build_rows [OF assms t] obtain o' rows where
      tr: "ticker_rows trades (date_list (trade_date (hd trades)) today) close actions ticker =
             (o', Inr rows)"
      and sub: "assign_value ` set rows \<subseteq> set table" by blast
    from ticker_rows_before_first_trade [OF tr dp r before]
    have "assign_value (fst r, ticker, None, snd r) \<in> set table" using sub by blast
    then show ?thesis by (simp add: assign_value_def mul_cell_def)
  qed
  show ?thesis using undefined_before row_before by blast
qed

theorem no_quantity_before_first_trade_witness:
  "build [\<lparr>trade_date = 1, trade_ticker = ''CBA'', trade_volume = 100, effective_price = 10\<rparr>,
          \<lparr>trade_date = 3, trade_ticker = ''ANZ'', trade_volume = 50, effective_price = 12\<rparr>]
     3 (\<lambda>t. [(1, Some 12), (3, Some 13)]) (\<lambda>t. Actions []) =
   ([CHR 0x0D # ''Checking ANZ'', CHR 0x0D # ''Checking CBA'',
     CHR 0x0A # ''Portfolio successfully built''],
    Inr [\<lparr>Date = 1, Ticker = ''ANZ'', Volume = None, Close = Some 12, Value = None\<rparr>,
         \<lparr>Date = 1, Ticker = ''CBA'', Volume = Some 100, Close = Some 12, Value = Some 1200\<rparr>,
         \<lparr>Date = 2, Ticker = ''CBA'', Volume = Some 100, Close = None, Value = None\<rparr>,
         \<lparr>Date = 3, Ticker = ''ANZ'', Volume = Some 50, Close = Some 13, Value = Some 650\<rparr>,
         \<lparr>Date = 3, Ticker = ''CBA'', Volume = Some 100, Close = Some 13, Value = Some 1300\<rparr>]) \<and>
   Volume \<lparr>Date = 1, Ticker = ''ANZ'', Volume = None, Close = Some 12, Value = None\<rparr> = None"
proof -
  let ?trades = "[\<lparr>trade_date = 1, trade_ticker = ''CBA'', trade_volume = 100, effective_price = 10\<rparr>,
          \<lparr>trade_date = 3, trade_ticker = ''ANZ'', trade_volume = 50, effective_price = 12\<rparr>]"
  let ?h = "\<lparr>Date = 1, Ticker = ''ANZ'', Volume = None, Close = Some 12, Value = None\<rparr>"
  let ?table = "[?h,
         \<lparr>Date = 1, Ticker = ''CBA'', Volume = Some 100, Close = Some 12, Value = Some 1200\<rparr>,
         \<lparr>Date = 2, Ticker = ''CBA'', Volume = Some 100, Close = None, Value = None\<rparr>,
         \<lparr>Date = 3, Ticker = ''ANZ'', Volume = Some 50, Close = Some 13, Value = Some 650\<rparr>,
         \<lparr>Date = 3, Ticker = ''CBA'', Volume = Some 100, Close = Some 13, Value = Some 1300\<rparr>]"
  have b: "build ?trades 3 (\<lambda>t. [(1, Some 12), (3, Some 13)]) (\<lambda>t. Actions []) =
      ([CHR 0x0D # ''Checking ANZ'', CHR 0x0D # ''Checking CBA'',
        CHR 0x0A # ''Portfolio successfully built''], Inr ?table)"
    by code_simp
  have m: "?h \<in> set ?table" by simp
  have f: "\<forall>t \<in> set ?trades. trade_ticker t = Ticker ?h \<longrightarrow> Date ?h < trade_date t" by simp
  from no_quantity_before_first_trade [OF b] m f b show ?thesis by simp
qed

text \<open>ANZ is first traded on day 3, the price table starts on day 1, the day of the
  first trade of the portfolio: the frame has a row for ANZ on day 1.\<close>

theorem record_before_first_trade_counterexample:
  "build [\<lparr>trade_date = 1, trade_ticker = ''CBA'', trade_volume = 100, effective_price = 10\<rparr>,
          \<lparr>trade_date = 3, trade_ticker = ''ANZ'', trade_volume = 50, effective_price = 12\<rparr>]
     4 (\<lambda>t. [(1, Some 12), (2, Some 13), (3, Some 14), (4, Some 15)]) (\<lambda>t. Actions []) =
   ([CHR 0x0D # ''Checking ANZ'', CHR 0x0D # ''Checking CBA'',
     CHR 0x0A # ''Portfolio successfully built''],
    Inr [\<lparr>Date = 1, Ticker = ''ANZ'', Volume = None, Close = Some 12, Value = None\<rparr>,
         \<lparr>Date = 1, Ticker = ''CBA'', Volume = Some 100, Close = Some 12, Value = Some 1200\<rparr>,
         \<lparr>Date = 2, Ticker = ''ANZ'', Volume = None, Close = Some 13, Value = None\<rparr>,
         \<lparr>Date = 2, Ticker = ''CBA'', Volume = Some 100, Close = Some 13, Value = Some 1300\<rparr>,
         \<lparr>Date = 3, Ticker = ''ANZ'', Volume = Some 50, Close = Some 14, Value = Some 700\<rparr>,
         \<lparr>Date = 3, Ticker = ''CBA'', Volume = Some 100, Close = Some 14, Value = Some 1400\<rparr>,
         \<lparr>Date = 4, Ticker = ''ANZ'', Volume = Some 50, Close = Some 15, Value = Some 750\<rparr>,
         \<lparr>Date = 4, Ticker = ''CBA'', Volume = Some 100, Close = Some 15, Value = Some 1500\<rparr>])"
  by code_simp

subsection \<open>C5: a split while nothing is held\<close>

text \<open>
  Claim C5, as the code has it. When the table of corporate actions has a split and
  \<open>stocksplits\<close> returns, a row whose quantity is exactly zero comes back with the same
  date and an undefined quantity (NaN): never with a non-zero quantity, and not with zero
  either. In the scenario (100 bought on day 1, 100 sold on day 5, a split on day 7) the
  reported quantity is undefined from day 5 on.
\<close>

theorem zero_holding_masked:
  assumes "has_split acts" and "stocksplits df ticker (Actions acts) = (out, Inr df')"
    and "i < length df" and "snd (df ! i) = Some 0"
  shows "df' ! i = (fst (df ! i), None)"
  using assms(3,4) unfolding stocksplits_rows [OF assms(1,2)]
  by (simp add: replace_zero_def)

theorem zero_holding_masked_witness:
  "has_split [(7, 2)] \<and>
   stocksplits [(1, Some 100), (2, Some 100), (3, Some 100), (4, Some 100), (5, Some 0),
                (6, Some 0), (7, Some 0), (8, Some 0), (9, Some 0)] ''CBA'' (Actions [(7, 2)]) =
     ([CHR 0x0D # ''Checking CBA''],
      Inr [(1, Some 100), (2, Some 100), (3, Some 100), (4, Some 100), (5, None),
           (6, None), (7, None), (8, None), (9, None)]) \<and>
   [(1 :: date, Some (100 :: rat)), (2, Some 100), (3, Some 100), (4, Some 100), (5, None),
    (6, None), (7, None), (8, None), (9, None)] ! 6 = (7, None)"
proof -
  have h: "has_split [(7, 2)]" by code_simp
  have s: "stocksplits [(1, Some 100), (2, Some 100), (3, Some 100), (4, Some 100), (5, Some 0),
                (6, Some 0), (7, Some 0), (8, Some 0), (9, Some 0)] ''CBA'' (Actions [(7, 2)]) =
     ([CHR 0x0D # ''Checking CBA''],
      Inr [(1, Some 100), (2, Some 100), (3, Some 100), (4, Some 100), (5, None),
           (6, None), (7, None), (8, None), (9, None)])"
    by code_simp
  from zero_holding_masked [OF h s, of 6] h s show ?thesis by simp
qed

text \<open>The scenario through \<open>build\<close>, days 1 to 9, a price on every day, beside a second
  instrument without split: the reported quantity of CBA from day 5 on, day 7 included,
  is NaN and not 0.\<close>

theorem closed_position_counterexample:
  "map_sum id (\<lambda>table. map (\<lambda>h. (Date h, Volume h, Value h))
                          (filter (\<lambda>h. Ticker h = ''CBA'') table))
     (snd (build
       [\<lparr>trade_date = 1, trade_ticker = ''CBA'', trade_volume = 100, effective_price = 10\<rparr>,
        \<lparr>trade_date = 1, trade_ticker = ''WBC'', trade_volume = 40, effective_price = 20\<rparr>,
        \<lparr>trade_date = 5, trade_ticker = ''CBA'', trade_volume = - 100, effective_price = 12\<rparr>]
       9 (\<lambda>t. map (\<lambda>d. (d, Some 12)) [1..9])
       (\<lambda>t. if t = ''CBA'' then Actions [(7, 2)] else Actions []))) =
   Inr [(1, Some 100, Some 1200), (2, Some 100, Some 1200), (3, Some 100, Some 1200),
        (4, Some 100, Some 1200), (5, None, None), (6, None, None), (7, None, None),
        (8, None, None), (9, None, None)]"
  by code_simp

subsection \<open>C7: a failing lookup of the corporate actions\<close>

text \<open>
  Claim C7, as the code has it. \<open>stocksplits\<close> catches \<open>TypeError\<close> only. When the lookup
  raises \<open>TypeError\<close>, it prints \<open>Something went wrong!\<close> and returns the quantity series
  as it is, and the loop of \<open>build\<close> goes on with the next instrument, the unadjusted
  quantities merged with the prices; when every lookup raises \<open>TypeError\<close>, \<open>build\<close>
  still returns a frame. When the lookup raises any other exception, the exception
  leaves \<open>stocksplits\<close> and the loop: the reconstruction is aborted, so \<open>build\<close> returns
  a frame only if every lookup that failed for an instrument of the ledger failed with
  \<open>TypeError\<close>.
\<close>

theorem lookup_failure_handling:
  "stocksplits df ticker (Raises TypeError) =
     ([CHR 0x0D # ''Checking '' @ ticker, CHR 0x0D # ''Something went wrong!''], Inr df) \<and>
   (e \<noteq> TypeError \<longrightarrow>
      stocksplits df ticker (Raises e) = ([CHR 0x0D # ''Checking '' @ ticker], Inl e)) \<and>
   (e \<noteq> TypeError \<and> actions ticker = Raises e \<longrightarrow>
      build_loop trades p_dates close actions (ticker # tickers) df_pfolio =
        ([CHR 0x0D # ''Checking '' @ ticker], Inl e)) \<and>
   (actions ticker = Raises TypeError \<longrightarrow>
      build_loop trades p_dates close actions (ticker # tickers) df_pfolio =
        (case build_loop trades p_dates close actions tickers
                (df_pfolio @ map (\<lambda>r. (fst r, ticker, fst (snd r), snd (snd r)))
                   (merge_close
                      (notna_rows (cumulative_volume
                         (map (\<lambda>t. (trade_date t, trade_volume t)) (by_ticker trades ticker)) p_dates))
                      (close ticker))) of
           (out', res) \<Rightarrow>
             ([CHR 0x0D # ''Checking '' @ ticker, CHR 0x0D # ''Something went wrong!''] @ out', res))) \<and>
   (trades \<noteq> [] \<and> trade_date (hd trades) \<le> today \<and> (\<forall>t. actions t = Raises TypeError) \<longrightarrow>
      (\<exists>out table. build trades today close actions = (out, Inr table))) \<and>
   (build trades today close actions = (out, Inr table) \<and>
    ticker \<in> set (map trade_ticker trades) \<and> actions ticker = Raises e \<longrightarrow> e = TypeError)"
proof (intro conjI impI)
  show "e = TypeError"
    if h: "build trades today close actions = (out, Inr table) \<and>
           ticker \<in> set (map trade_ticker trades) \<and> actions ticker = Raises e"
  proof (rule ccontr)
    assume ne: "e \<noteq> TypeError"
    from h build_rows [of trades today close actions out table ticker] obtain o' rows where
      "ticker_rows trades (date_list (trade_date (hd trades)) today) close actions ticker =
         (o', Inr rows)" by blast
    then show False using h ne by (simp add: ticker_rows_def Let_def stocksplits_def)
  qed
  show "stocksplits df ticker (Raises TypeError) =
     ([CHR 0x0D # ''Checking '' @ ticker, CHR 0x0D # ''Something went wrong!''], Inr df)"
    by (simp add: stocksplits_def)
  show "stocksplits df ticker (Raises e) = ([CHR 0x0D # ''Checking '' @ ticker], Inl e)"
    if "e \<noteq> TypeError" using that by (simp add: stocksplits_def)
  show "build_loop trades p_dates close actions (ticker # tickers) df_pfolio =
        ([CHR 0x0D # ''Checking '' @ ticker], Inl e)"
    if "e \<noteq> TypeError \<and> actions ticker = Raises e"
    using that by (simp add: ticker_rows_def Let_def stocksplits_def)
  show "build_loop trades p_dates close actions (ticker # tickers) df_pfolio =
        (case build_loop trades p_dates close actions tickers
                (df_pfolio @ map (\<lambda>r. (fst r, ticker, fst (snd r), snd (snd r)))
                   (merge_close
                      (notna_rows (cumulative_volume
                         (map (\<lambda>t. (trade_date t, trade_volume t)) (by_ticker trades ticker)) p_dates))
                      (close ticker))) of
           (out', res) \<Rightarrow>
             ([CHR 0x0D # ''Checking '' @ ticker, CHR 0x0D # ''Something went wrong!''] @ out', res))"
    if "actions ticker = Raises TypeError"
    using that by (simp add: ticker_rows_def Let_def stocksplits_def)
  show "\<exists>out table. build trades today close actions = (out, Inr table)"
    if h: "trades \<noteq> [] \<and> trade_date (hd trades) \<le> today \<and> (\<forall>t. actions t = Raises TypeError)"
  proof -
    from h obtain t0 ts where tr: "trades = t0 # ts" by (cases trades) auto
    have ne: "date_list (trade_date t0) today \<noteq> []" using h tr by (simp add: date_list_def)
    from h have "\<forall>t. actions t = Raises TypeError" by simp
    from build_loop_TypeError [OF this] obtain o' res where
      "build_loop trades (date_list (trade_date t0) today) close actions
         (sort (remdups (map trade_ticker trades))) [] = (o', Inr res)" by blast
    then show ?thesis using ne unfolding build_def tr by (simp add: Let_def)
  qed
qed

theorem lookup_failure_handling_witness:
  "stocksplits [(1, Some 100)] ''CBA'' (Raises TypeError) =
     ([CHR 0x0D # ''Checking CBA'', CHR 0x0D # ''Something went wrong!''], Inr [(1, Some 100)]) \<and>
   stocksplits [(1, Some 100)] ''CBA'' (Raises ConnectionError) =
     ([CHR 0x0D # ''Checking CBA''], Inl ConnectionError) \<and>
   build [\<lparr>trade_date = 1, trade_ticker = ''CBA'', trade_volume = 100, effective_price = 10\<rparr>,
          \<lparr>trade_date = 1, trade_ticker = ''ANZ'', trade_volume = 50, effective_price = 20\<rparr>]
      1 (\<lambda>t. [(1, Some 12)]) (\<lambda>t. Raises TypeError) =
     ([CHR 0x0D # ''Checking ANZ'', CHR 0x0D # ''Something went wrong!'',
       CHR 0x0D # ''Checking CBA'', CHR 0x0D # ''Something went wrong!'',
       CHR 0x0A # ''Portfolio successfully built''],
      Inr [\<lparr>Date = 1, Ticker = ''ANZ'', Volume = Some 50, Close = Some 12, Value = Some 600\<rparr>,
           \<lparr>Date = 1, Ticker = ''CBA'', Volume = Some 100, Close = Some 12, Value = Some 1200\<rparr>])"
proof -
  have b: "build [\<lparr>trade_date = 1, trade_ticker = ''CBA'', trade_volume = 100, effective_price = 10\<rparr>,
          \<lparr>trade_date = 1, trade_ticker = ''ANZ'', trade_volume = 50, effective_price = 20\<rparr>]
      1 (\<lambda>t. [(1, Some 12)]) (\<lambda>t. Raises TypeError) =
     ([CHR 0x0D # ''Checking ANZ'', CHR 0x0D # ''Something went wrong!'',
       CHR 0x0D # ''Checking CBA'', CHR 0x0D # ''Something went wrong!'',
       CHR 0x0A # ''Portfolio successfully built''],
      Inr [\<lparr>Date = 1, Ticker = ''ANZ'', Volume = Some 50, Close = Some 12, Value = Some 600\<rparr>,
           \<lparr>Date = 1, Ticker = ''CBA'', Volume = Some 100, Close = Some 12, Value = Some 1200\<rparr>])"
    by code_simp
  show ?thesis
    using lookup_failure_handling [of "[(1, Some 100)]" "''CBA''" ConnectionError
        "\<lambda>t. Raises TypeError"
        "[\<lparr>trade_date = 1, trade_ticker = ''CBA'', trade_volume = 100, effective_price = 10\<rparr>,
          \<lparr>trade_date = 1, trade_ticker = ''ANZ'', trade_volume = 50, effective_price = 20\<rparr>]"
        "[1]" "\<lambda>t. [(1, Some 12)]" "[]" "[]" 1] b
    by simp
qed

text \<open>The lookup fails with \<open>ConnectionError\<close> for ANZ and succeeds for CBA: \<open>build\<close> ends
  with the exception, and no record of CBA is returned.\<close>

theorem lookup_failure_counterexample:
  "build [\<lparr>trade_date = 1, trade_ticker = ''CBA'', trade_volume = 100, effective_price = 10\<rparr>,
          \<lparr>trade_date = 1, trade_ticker = ''ANZ'', trade_volume = 50, effective_price = 20\<rparr>]
     1 (\<lambda>t. [(1, Some 12)])
     (\<lambda>t. if t = ''ANZ'' then Raises ConnectionError else Actions []) =
   ([CHR 0x0D # ''Checking ANZ''], Inl ConnectionError)"
  by code_simp

subsection \<open>C8: no split, no change\<close>

text \<open>
  Claim C8, as the code has it. \<open>stocksplits\<close> returns the quantity series unchanged when
  the table of corporate actions has no entry with a positive factor at any date, so in
  particular for the empty table. When the table has such an entry, even one dated
  outside the series (every date of the series having factor 1), a series with one row
  per date comes back with its zero quantities undefined and its other quantities
  rounded up.
\<close>

theorem adjust_identity_without_split:
  "(\<not> has_split acts \<longrightarrow>
      stocksplits df ticker (Actions acts) = ([CHR 0x0D # ''Checking '' @ ticker], Inr df)) \<and>
   stocksplits df ticker (Actions []) = ([CHR 0x0D # ''Checking '' @ ticker], Inr df) \<and>
   (has_split acts \<and> distinct (map fst df) \<and> (\<forall>r \<in> set df. split_factor acts (fst r) = 1) \<longrightarrow>
      stocksplits df ticker (Actions acts) =
        ([CHR 0x0D # ''Checking '' @ ticker],
         Inr (map (\<lambda>r. (fst r, ceil_cell (replace_zero (snd r)))) df)))"
proof (intro conjI impI)
  show "stocksplits df ticker (Actions acts) = ([CHR 0x0D # ''Checking '' @ ticker], Inr df)"
    if "\<not> has_split acts" using that by (rule stocksplits_no_split)
  have "\<not> has_split []" by (simp add: has_split_def)
  then show "stocksplits df ticker (Actions []) = ([CHR 0x0D # ''Checking '' @ ticker], Inr df)"
    by (rule stocksplits_no_split)
  show "stocksplits df ticker (Actions acts) =
        ([CHR 0x0D # ''Checking '' @ ticker],
         Inr (map (\<lambda>r. (fst r, ceil_cell (replace_zero (snd r)))) df))"
    if h: "has_split acts \<and> distinct (map fst df) \<and> (\<forall>r \<in> set df. split_factor acts (fst r) = 1)"
  proof -
    from h have "spec_adjust acts df = map (\<lambda>r. (fst r, ceil_cell (replace_zero (snd r)))) df"
      by (intro spec_adjust_no_factor) simp
    then show ?thesis using h stocksplits_spec_adjust [of acts df ticker] by simp
  qed
qed

theorem adjust_identity_without_split_witness:
  "\<not> has_split [(1, 0)] \<and>
   stocksplits [(2, Some (5 / 2)), (3, Some 0)] ''CBA'' (Actions [(1, 0)]) =
     ([CHR 0x0D # ''Checking CBA''], Inr [(2, Some (5 / 2)), (3, Some 0)]) \<and>
   has_split [(1, 2)] \<and>
   stocksplits [(2, Some (5 / 2)), (3, Some 0)] ''CBA'' (Actions [(1, 2)]) =
     ([CHR 0x0D # ''Checking CBA''], Inr [(2, Some 3), (3, None)])"
proof -
  have n: "\<not> has_split [(1, 0)]" by code_simp
  have h: "has_split [(1, 2)]" by code_simp
  have d: "distinct (map fst [(2 :: date, Some (5 / 2 :: rat)), (3, Some 0)])" by simp
  have f: "\<forall>r \<in> set [(2 :: date, Some (5 / 2 :: rat)), (3, Some 0)].
             split_factor [(1, 2)] (fst r) = 1"
    by (simp add: split_factor_def)
  have c: "map (\<lambda>r. (fst r, ceil_cell (replace_zero (snd r))))
             [(2 :: date, Some (5 / 2 :: rat)), (3, Some 0)] = [(2, Some 3), (3, None)]"
    by code_simp
  show ?thesis
    using adjust_identity_without_split [of "[(1, 0)]" "[(2, Some (5 / 2)), (3, Some 0)]" "''CBA''"]
      adjust_identity_without_split [of "[(1, 2)]" "[(2, Some (5 / 2)), (3, Some 0)]" "''CBA''"]
      n h d f
    unfolding c by simp
qed

text \<open>The series covers days 2 and 3, the only split of the table is on day 1, so no
  split lies in the range of the series: the series comes back changed.\<close>

theorem adjust_identity_counterexample:
  "stocksplits [(2, Some 100), (3, Some 0)] ''CBA'' (Actions [(1, 2)]) =
     ([CHR 0x0D # ''Checking CBA''], Inr [(2, Some 100), (3, None)])"
  by code_simp

subsection \<open>C9: the value\<close>

text \<open>
  Claim C9. In every record of the frame \<open>build\<close> returns, the value is defined exactly
  when the quantity and the price are both defined, and then it is the quantity times
  the price.
\<close>

theorem value_is_quantity_times_price:
  assumes "build trades today close actions = (out, Inr table)" and "h \<in> set table"
  shows "(Value h \<noteq> None \<longleftrightarrow> Volume h \<noteq> None \<and> Close h \<noteq> None) \<and>
         (\<forall>q p. Volume h = Some q \<and> Close h = Some p \<longrightarrow> Value h = Some (q * p))"
proof -
  from build_table [OF assms(1)] assms(2) obtain x where "h = assign_value x" by auto
  then show ?thesis by (auto simp: assign_value_def mul_cell_def split: option.splits)
qed

theorem value_is_quantity_times_price_witness:
  "build [\<lparr>trade_date = 1, trade_ticker = ''CBA'', trade_volume = 100, effective_price = 10\<rparr>,
          \<lparr>trade_date = 2, trade_ticker = ''ANZ'', trade_volume = 50, effective_price = 20\<rparr>]
     2 (\<lambda>t. [(1, Some 12)]) (\<lambda>t. Actions []) =
   ([CHR 0x0D # ''Checking ANZ'', CHR 0x0D # ''Checking CBA'',
     CHR 0x0A # ''Portfolio successfully built''],
    Inr [\<lparr>Date = 1, Ticker = ''ANZ'', Volume = None, Close = Some 12, Value = None\<rparr>,
         \<lparr>Date = 1, Ticker = ''CBA'', Volume = Some 100, Close = Some 12, Value = Some 1200\<rparr>,
         \<lparr>Date = 2, Ticker = ''ANZ'', Volume = Some 50, Close = None, Value = None\<rparr>,
         \<lparr>Date = 2, Ticker = ''CBA'', Volume = Some 100, Close = None, Value = None\<rparr>]) \<and>
   Value \<lparr>Date = 1, Ticker = ''CBA'', Volume = Some 100, Close = Some 12, Value = Some 1200\<rparr> =
     Some (100 * 12)"
proof -
  let ?h = "\<lparr>Date = 1, Ticker = ''CBA'', Volume = Some 100, Close = Some 12, Value = Some 1200\<rparr>"
  let ?table = "[\<lparr>Date = 1, Ticker = ''ANZ'', Volume = None, Close = Some 12, Value = None\<rparr>, ?h,
         \<lparr>Date = 2, Ticker = ''ANZ'', Volume = Some 50, Close = None, Value = None\<rparr>,
         \<lparr>Date = 2, Ticker = ''CBA'', Volume = Some 100, Close = None, Value = None\<rparr>]"
  have b: "build [\<lparr>trade_date = 1, trade_ticker = ''CBA'', trade_volume = 100, effective_price = 10\<rparr>,
          \<lparr>trade_date = 2, trade_ticker = ''ANZ'', trade_volume = 50, effective_price = 20\<rparr>]
     2 (\<lambda>t. [(1, Some 12)]) (\<lambda>t. Actions []) =
   ([CHR 0x0D # ''Checking ANZ'', CHR 0x0D # ''Checking CBA'',
     CHR 0x0A # ''Portfolio successfully built''], Inr ?table)"
    by code_simp
  have m: "?h \<in> set ?table" by simp
  from value_is_quantity_times_price [OF b m] b show ?thesis by simp
qed

subsection \<open>C10: when the quantities are rounded\<close>



end
